theory Spec2Isabelle
  imports Complex_Main
begin

section \<open>GangSTR: expansion-aware realignment and read classification\<close>

text \<open>
  A shallow embedding of \<^verbatim>\<open>src/realignment.cpp\<close>. The functions are translated one by
  one and keep their names. Conventions:
  \<^item> \<^verbatim>\<open>int32_t\<close> values are modelled as \<open>int\<close>: the development assumes that sequence
    lengths and scores stay inside the 32-bit range, so no wrap-around is written out;
  \<^item> \<^verbatim>\<open>std::string\<close> is \<open>string\<close>, the score matrix
    \<^verbatim>\<open>std::vector<std::vector<int32_t> >\<close> is a list of rows;
  \<^item> \<^verbatim>\<open>.at()\<close> is a checked access: out of range it throws \<^verbatim>\<open>std::out_of_range\<close>,
    here the error value \<open>OutOfRange\<close>. An \<^verbatim>\<open>int32_t\<close> index that is negative becomes
    a huge \<^verbatim>\<open>size_t\<close> and is out of range as well;
  \<^item> a function returning \<^verbatim>\<open>bool\<close> with out-parameters returns a sum: \<open>Inr\<close> of the
    values written through the out-parameters when the source returns \<^verbatim>\<open>true\<close>,
    \<open>Inl ReturnedFalse\<close> when it returns \<^verbatim>\<open>false\<close>;
  \<^item> the integer division by a zero period, undefined in C++, is the error
    \<open>DivisionByZero\<close>;
  \<^item> the constants \<^verbatim>\<open>MATCH_SCORE\<close>, \<^verbatim>\<open>MISMATCH_SCORE\<close>, \<^verbatim>\<open>GAP_SCORE\<close> and
    \<^verbatim>\<open>MATCH_PERC_THRESHOLD\<close> are declared in \<^verbatim>\<open>src/realignment.h\<close>, which is not part
    of the sources at hand: they are the parameters \<open>params\<close> of every function;
  \<^item> the global variable \<^verbatim>\<open>MARGIN\<close>, written by \<^verbatim>\<open>expansion_aware_realign\<close> and read
    by \<^verbatim>\<open>classify_realigned_read\<close>, is passed explicitly: the realigner returns its
    new value and the classifier takes the current one as an argument.
\<close>

subsection \<open>Data\<close>

datatype error = OutOfRange | DivisionByZero | ReturnedFalse

record params =
  MATCH_SCORE :: int
  MISMATCH_SCORE :: int
  GAP_SCORE :: int
  MATCH_PERC_THRESHOLD :: real

text \<open>The members of \<^verbatim>\<open>SingleReadType\<close> that \<^verbatim>\<open>classify_realigned_read\<close> assigns.\<close>

datatype SingleReadType = SR_PREFLANK | SR_POSTFLANK | SR_ENCLOSING | SR_IRR | SR_UNKNOWN

type_synonym score_matrix = "int list list"

subsection \<open>Checked access\<close>

definition vec_at :: "'a list \<Rightarrow> int \<Rightarrow> error + 'a" where
  "vec_at xs i = (if 0 \<le> i \<and> i < int (length xs) then Inr (xs ! nat i) else Inl OutOfRange)"

text \<open>\<^verbatim>\<open>score_matrix->at(i).at(j)\<close> as a read.\<close>

definition matrix_at :: "score_matrix \<Rightarrow> int \<Rightarrow> int \<Rightarrow> error + int" where
  "matrix_at sm i j = (case vec_at sm i of Inl e \<Rightarrow> Inl e | Inr row \<Rightarrow> vec_at row j)"

text \<open>\<^verbatim>\<open>score_matrix->at(i).at(j) = v\<close>.\<close>

definition matrix_set :: "score_matrix \<Rightarrow> int \<Rightarrow> int \<Rightarrow> int \<Rightarrow> error + score_matrix" where
  "matrix_set sm i j v =
     (case vec_at sm i of
        Inl e \<Rightarrow> Inl e
      | Inr row \<Rightarrow>
          (if 0 \<le> j \<and> j < int (length row)
           then Inr (sm[nat i := row[nat j := v]])
           else Inl OutOfRange))"

subsection \<open>The cell scorer\<close>

definition calc_score ::
  "params \<Rightarrow> int \<Rightarrow> int \<Rightarrow> string \<Rightarrow> string \<Rightarrow> score_matrix \<Rightarrow> error + score_matrix" where
  "calc_score P i j seq1 seq2 sm =
     (case vec_at seq1 (i - 1) of Inl e \<Rightarrow> Inl e | Inr c1 \<Rightarrow>
      case vec_at seq2 (j - 1) of Inl e \<Rightarrow> Inl e | Inr c2 \<Rightarrow>
      let max_score0 = 0;
          similarity = (if c1 = c2 then MATCH_SCORE P else MISMATCH_SCORE P) in
      case matrix_at sm (i - 1) (j - 1) of Inl e \<Rightarrow> Inl e | Inr d \<Rightarrow>
      let diag_score = d + similarity;
          max_score1 = (if diag_score > max_score0 then diag_score else max_score0) in
      case matrix_at sm (i - 1) j of Inl e \<Rightarrow> Inl e | Inr u \<Rightarrow>
      let up_score = u + GAP_SCORE P;
          max_score2 = (if up_score > max_score1 then up_score else max_score1) in
      case matrix_at sm i (j - 1) of Inl e \<Rightarrow> Inl e | Inr l \<Rightarrow>
      let left_score = l + GAP_SCORE P;
          max_score3 = (if left_score > max_score2 then left_score else max_score2) in
      matrix_set sm i j max_score3)"

subsection \<open>The score matrix builder\<close>

text \<open>
  The state of the two loops of \<^verbatim>\<open>create_score_matrix\<close>: the matrix and
  \<^verbatim>\<open>max_score\<close>, \<^verbatim>\<open>max_pos_row\<close>, \<^verbatim>\<open>max_pos_col\<close>.
\<close>

type_synonym fill_state = "score_matrix \<times> int \<times> int \<times> int"

function fill_row ::
  "params \<Rightarrow> int \<Rightarrow> string \<Rightarrow> string \<Rightarrow> int \<Rightarrow> int \<Rightarrow> fill_state \<Rightarrow> error + fill_state" where
  "fill_row P cols seq1 seq2 i j (sm, max_score, max_pos_row, max_pos_col) =
     (if j < cols then
        (case calc_score P i j seq1 seq2 sm of
           Inl e \<Rightarrow> Inl e
         | Inr sm' \<Rightarrow>
             (case matrix_at sm' i j of
                Inl e \<Rightarrow> Inl e
              | Inr v \<Rightarrow>
                  fill_row P cols seq1 seq2 i (j + 1)
                    (if v > max_score then (sm', v, i, j)
                     else (sm', max_score, max_pos_row, max_pos_col))))
      else Inr (sm, max_score, max_pos_row, max_pos_col))"
  by pat_completeness auto
termination
  by (relation "measure (\<lambda>(P, cols, seq1, seq2, i, j, st). nat (cols - j))") auto

declare fill_row.simps [simp del]

function fill_rows ::
  "params \<Rightarrow> int \<Rightarrow> int \<Rightarrow> string \<Rightarrow> string \<Rightarrow> int \<Rightarrow> fill_state \<Rightarrow> error + fill_state" where
  "fill_rows P rows cols seq1 seq2 i st =
     (if i < rows then
        (case fill_row P cols seq1 seq2 i 1 st of
           Inl e \<Rightarrow> Inl e
         | Inr st' \<Rightarrow> fill_rows P rows cols seq1 seq2 (i + 1) st')
      else Inr st)"
  by pat_completeness auto
termination
  by (relation "measure (\<lambda>(P, rows, cols, seq1, seq2, i, st). nat (rows - i))") auto

declare fill_rows.simps [simp del]

text \<open>The result is the filled matrix, \<^verbatim>\<open>*start_pos\<close> and \<^verbatim>\<open>*current_score\<close>.\<close>

definition create_score_matrix ::
  "params \<Rightarrow> int \<Rightarrow> int \<Rightarrow> string \<Rightarrow> string \<Rightarrow> score_matrix \<Rightarrow>
   error + (score_matrix \<times> int \<times> int)" where
  "create_score_matrix P rows cols seq1 seq2 sm =
     (case fill_rows P rows cols seq1 seq2 1 (sm, 0, -1, -1) of
        Inl e \<Rightarrow> Inl e
      | Inr (sm', max_score, max_pos_row, max_pos_col) \<Rightarrow>
          (if max_pos_row = -1 \<or> max_pos_col = -1 then Inr (sm', -1, 0)
           else Inr (sm', max_pos_row, max_score)))"

subsection \<open>The local aligner\<close>

text \<open>\<^verbatim>\<open>score_matrix.resize(rows, std::vector<int32_t>(cols, 0))\<close> on an empty vector.\<close>

definition initial_matrix :: "int \<Rightarrow> int \<Rightarrow> score_matrix" where
  "initial_matrix rows cols = replicate (nat rows) (replicate (nat cols) 0)"

text \<open>The result is \<^verbatim>\<open>(*pos, *score)\<close>.\<close>

definition smith_waterman :: "params \<Rightarrow> string \<Rightarrow> string \<Rightarrow> error + (int \<times> int)" where
  "smith_waterman P seq1 seq2 =
     (let rows = int (length seq1) + 1;
          cols = int (length seq2) + 1 in
      case create_score_matrix P rows cols seq1 seq2 (initial_matrix rows cols) of
        Inl e \<Rightarrow> Inl e
      | Inr (sm, start_pos, current_score) \<Rightarrow>
          Inr (start_pos - int (length seq2), current_score))"

subsection \<open>The expansion-aware realigner\<close>

text \<open>The string built in \<^verbatim>\<open>var_realign_ss\<close> for the trial copy count \<open>k\<close>.\<close>

definition var_realign_string :: "string \<Rightarrow> string \<Rightarrow> string \<Rightarrow> int \<Rightarrow> string" where
  "var_realign_string pre_flank post_flank motif k =
     pre_flank @ concat (replicate (nat k) motif) @ post_flank"

text \<open>
  One trial as the loop records it: the copy count with the position and the score that
  \<^verbatim>\<open>smith_waterman\<close> returned for it.
\<close>

type_synonym trial = "int \<times> int \<times> int"

text \<open>
  The loop of \<^verbatim>\<open>expansion_aware_realign\<close>, from the value \<open>current_nCopy\<close> on. Its state
  is \<^verbatim>\<open>(max_score, max_nCopy, max_pos)\<close>; beside it the model keeps the list of the
  trials made so far, in the order of the calls of \<^verbatim>\<open>smith_waterman\<close>. That list is a
  log only: nothing in the loop reads it.
\<close>

function realign_loop ::
  "params \<Rightarrow> string \<Rightarrow> string \<Rightarrow> string \<Rightarrow> string \<Rightarrow> int \<Rightarrow> int \<Rightarrow>
   (int \<times> int \<times> int) \<times> trial list \<Rightarrow> error + ((int \<times> int \<times> int) \<times> trial list)" where
  "realign_loop P seq pre_flank post_flank motif bound current_nCopy
       ((max_score, max_nCopy, max_pos), tried) =
     (if current_nCopy < bound then
        (case smith_waterman P (var_realign_string pre_flank post_flank motif current_nCopy) seq of
           Inl e \<Rightarrow> Inl e
         | Inr (current_pos, current_score) \<Rightarrow>
             (let best = (if current_score > max_score
                          then (current_score, current_nCopy, current_pos)
                          else (max_score, max_nCopy, max_pos));
                  tried' = tried @ [(current_nCopy, current_pos, current_score)] in
              if current_score = int (length seq) * MATCH_SCORE P then Inr (best, tried')
              else realign_loop P seq pre_flank post_flank motif bound (current_nCopy + 1)
                     (best, tried')))
      else Inr ((max_score, max_nCopy, max_pos), tried))"
  by pat_completeness auto
termination
  by (relation "measure (\<lambda>(P, seq, pre, post, motif, bound, k, st). nat (bound - k))") auto

declare realign_loop.simps [simp del]

text \<open>The whole call, with the log: the new \<^verbatim>\<open>MARGIN\<close>, the three results, the trials.\<close>

definition realign_logged ::
  "params \<Rightarrow> string \<Rightarrow> string \<Rightarrow> string \<Rightarrow> string \<Rightarrow>
   error + ((int \<times> int \<times> int \<times> int) \<times> trial list)" where
  "realign_logged P seq pre_flank post_flank motif =
     (let read_len = int (length seq);
          period = int (length motif);
          MARGIN = 4 * period - 1 in
      if period = 0 then Inl DivisionByZero
      else
        (case realign_loop P seq pre_flank post_flank motif (read_len div period + 2) 0
                ((0, 0, 0), []) of
           Inl e \<Rightarrow> Inl e
         | Inr ((max_score, max_nCopy, max_pos), tried) \<Rightarrow>
             Inr ((MARGIN, max_nCopy, max_pos, max_score), tried)))"

text \<open>
  \<^verbatim>\<open>expansion_aware_realign\<close>: the result is the new value of \<^verbatim>\<open>MARGIN\<close> and
  \<^verbatim>\<open>(*nCopy, *pos, *score)\<close>.
\<close>

definition expansion_aware_realign ::
  "params \<Rightarrow> string \<Rightarrow> string \<Rightarrow> string \<Rightarrow> string \<Rightarrow> error + (int \<times> int \<times> int \<times> int)" where
  "expansion_aware_realign P seq pre_flank post_flank motif =
     (case realign_logged P seq pre_flank post_flank motif of
        Inl e \<Rightarrow> Inl e
      | Inr (res, tried) \<Rightarrow> Inr res)"

text \<open>The trials of a call, in order.\<close>

definition realign_trials ::
  "params \<Rightarrow> string \<Rightarrow> string \<Rightarrow> string \<Rightarrow> string \<Rightarrow> trial list" where
  "realign_trials P seq pre_flank post_flank motif =
     (case realign_logged P seq pre_flank post_flank motif of
        Inl e \<Rightarrow> []
      | Inr (res, tried) \<Rightarrow> tried)"

subsection \<open>The read classifier\<close>

text \<open>
  The conversion \<^verbatim>\<open>(int32_t)\<close> of a \<^verbatim>\<open>double\<close> truncates towards zero. The product
  \<^verbatim>\<open>MATCH_PERC_THRESHOLD*seq.size()*MATCH_SCORE\<close> is computed in \<^verbatim>\<open>double\<close>; the model
  computes it exactly, over the reals.
\<close>

definition truncate_to_int :: "real \<Rightarrow> int" where
  "truncate_to_int x = (if 0 \<le> x then \<lfloor>x\<rfloor> else \<lceil>x\<rceil>)"

definition score_threshold :: "params \<Rightarrow> string \<Rightarrow> int" where
  "score_threshold P seq =
     truncate_to_int (MATCH_PERC_THRESHOLD P * of_nat (length seq) * of_int (MATCH_SCORE P))"

text \<open>
  The three tests on the geometry that \<^verbatim>\<open>classify_realigned_read\<close> makes, with
  \<^verbatim>\<open>end_pos = start_pos + seq.size() - 1\<close>, \<^verbatim>\<open>start_str = prefix_length\<close> and
  \<^verbatim>\<open>end_str = prefix_length + nCopy*motif.size()\<close>: the values of \<^verbatim>\<open>start_in_str\<close> and
  \<^verbatim>\<open>end_in_str\<close>, and the condition of the last \<^verbatim>\<open>else if\<close>.
\<close>

definition start_in_str :: "int \<Rightarrow> string \<Rightarrow> int \<Rightarrow> int \<Rightarrow> int \<Rightarrow> bool" where
  "start_in_str MARGIN motif start_pos nCopy prefix_length =
     (let start_str = prefix_length;
          end_str = prefix_length + nCopy * int (length motif) in
      start_pos \<ge> start_str - MARGIN \<and> start_pos \<le> end_str + MARGIN)"

definition end_in_str :: "int \<Rightarrow> string \<Rightarrow> string \<Rightarrow> int \<Rightarrow> int \<Rightarrow> int \<Rightarrow> bool" where
  "end_in_str MARGIN seq motif start_pos nCopy prefix_length =
     (let end_pos = start_pos + int (length seq) - 1;
          start_str = prefix_length;
          end_str = prefix_length + nCopy * int (length motif) in
      end_pos \<ge> start_str - MARGIN \<and> end_pos \<le> end_str + MARGIN)"

definition spans_str :: "string \<Rightarrow> string \<Rightarrow> int \<Rightarrow> int \<Rightarrow> int \<Rightarrow> bool" where
  "spans_str seq motif start_pos nCopy prefix_length =
     (let end_pos = start_pos + int (length seq) - 1;
          start_str = prefix_length;
          end_str = prefix_length + nCopy * int (length motif) in
      start_pos < start_str \<and> end_pos > end_str)"

definition classify_realigned_read ::
  "params \<Rightarrow> int \<Rightarrow> string \<Rightarrow> string \<Rightarrow> int \<Rightarrow> int \<Rightarrow> int \<Rightarrow> int \<Rightarrow> error + SingleReadType" where
  "classify_realigned_read P MARGIN seq motif start_pos nCopy score prefix_length =
     (let s_in = start_in_str MARGIN motif start_pos nCopy prefix_length;
          e_in = end_in_str MARGIN seq motif start_pos nCopy prefix_length in
      if score < score_threshold P seq \<or> nCopy = 0 then Inr SR_UNKNOWN
      else if s_in \<and> e_in then Inr SR_IRR
      else if s_in \<and> \<not> e_in then Inr SR_POSTFLANK
      else if \<not> s_in \<and> e_in then Inr SR_PREFLANK
      else if spans_str seq motif start_pos nCopy prefix_length then Inr SR_ENCLOSING
      else Inl ReturnedFalse)"

subsection \<open>Parameters for concrete instances\<close>

text \<open>
  A conventional scoring scheme (a positive match score, negative mismatch and gap
  scores) and a threshold of 90 percent, for the concrete instances below.
\<close>

definition example_params :: params where
  "example_params =
     \<lparr>MATCH_SCORE = 3, MISMATCH_SCORE = -1, GAP_SCORE = -3, MATCH_PERC_THRESHOLD = 9 / 10\<rparr>"


subsection \<open>Notions used in the statements\<close>

text \<open>
  The scoring schemes the statements about scores are for: a positive match score, a
  mismatch score below it and a negative gap score.
\<close>

definition standard_scoring :: "params \<Rightarrow> bool" where
  "standard_scoring P = (0 < MATCH_SCORE P \<and> MISMATCH_SCORE P < MATCH_SCORE P \<and> GAP_SCORE P < 0)"

text \<open>
  The invariant of the score matrix: no cell is negative, and the cells of row 0 and of
  column 0 are 0.
\<close>

definition cells_nonneg :: "score_matrix \<Rightarrow> bool" where
  "cells_nonneg sm = list_all (list_all (\<lambda>v. 0 \<le> v)) sm"

definition row0_zero :: "score_matrix \<Rightarrow> bool" where
  "row0_zero sm = (case sm of [] \<Rightarrow> True | r # _ \<Rightarrow> list_all (\<lambda>v. v = 0) r)"

definition col0_zero :: "score_matrix \<Rightarrow> bool" where
  "col0_zero sm = list_all (\<lambda>r. case r of [] \<Rightarrow> True | v # _ \<Rightarrow> v = 0) sm"

definition matrix_invariant :: "score_matrix \<Rightarrow> bool" where
  "matrix_invariant sm = (cells_nonneg sm \<and> row0_zero sm \<and> col0_zero sm)"

text \<open>No cell of the matrix exceeds zero.\<close>

definition no_positive_cell :: "score_matrix \<Rightarrow> bool" where
  "no_positive_cell sm = list_all (list_all (\<lambda>v. v \<le> 0)) sm"

text \<open>A matrix with \<open>rows\<close> rows of \<open>cols\<close> cells each.\<close>

definition has_dims :: "score_matrix \<Rightarrow> nat \<Rightarrow> nat \<Rightarrow> bool" where
  "has_dims sm rows cols = (length sm = rows \<and> list_all (\<lambda>r. length r = cols) sm)"

text \<open>
  The value that the loops of \<^verbatim>\<open>create_score_matrix\<close> leave in the cell \<open>(i, j)\<close>, as a
  recursion on the indices; \<open>fill_rows_correct\<close> below proves that they do.
\<close>

fun sw_cell :: "params \<Rightarrow> string \<Rightarrow> string \<Rightarrow> nat \<Rightarrow> nat \<Rightarrow> int" where
  "sw_cell P seq1 seq2 0 j = 0"
| "sw_cell P seq1 seq2 (Suc i) 0 = 0"
| "sw_cell P seq1 seq2 (Suc i) (Suc j) =
     max 0
       (max (sw_cell P seq1 seq2 i j
               + (if seq1 ! i = seq2 ! j then MATCH_SCORE P else MISMATCH_SCORE P))
          (max (sw_cell P seq1 seq2 i (Suc j) + GAP_SCORE P)
               (sw_cell P seq1 seq2 (Suc i) j + GAP_SCORE P)))"

text \<open>
  The invariant of the two loops at the moment the cell \<open>(i, j)\<close> is next: the cells before
  it in row-major order hold their final values, the others are still 0, and
  \<^verbatim>\<open>max_score\<close> with \<^verbatim>\<open>max_pos_row\<close>, \<^verbatim>\<open>max_pos_col\<close> describes the largest cell seen.
\<close>

definition visited :: "nat \<Rightarrow> nat \<Rightarrow> nat \<Rightarrow> nat \<Rightarrow> bool" where
  "visited i j a b = (a < i \<or> (a = i \<and> b < j))"

definition fill_inv :: "params \<Rightarrow> string \<Rightarrow> string \<Rightarrow> nat \<Rightarrow> nat \<Rightarrow> fill_state \<Rightarrow> bool" where
  "fill_inv P seq1 seq2 i j st =
     (case st of (sm, max_score, max_pos_row, max_pos_col) \<Rightarrow>
        length sm = length seq1 + 1
        \<and> (\<forall>a \<le> length seq1. length (sm ! a) = length seq2 + 1)
        \<and> (\<forall>a \<le> length seq1. \<forall>b \<le> length seq2.
              sm ! a ! b = (if visited i j a b then sw_cell P seq1 seq2 a b else 0))
        \<and> (\<forall>a \<le> length seq1. \<forall>b \<le> length seq2.
              visited i j a b \<longrightarrow> sw_cell P seq1 seq2 a b \<le> max_score)
        \<and> ((max_score = 0 \<and> max_pos_row = -1 \<and> max_pos_col = -1)
           \<or> (0 < max_score \<and> 1 \<le> max_pos_row \<and> max_pos_row \<le> int (length seq1)
              \<and> 1 \<le> max_pos_col \<and> max_pos_col \<le> int (length seq2)
              \<and> sw_cell P seq1 seq2 (nat max_pos_row) (nat max_pos_col) = max_score)))"

text \<open>The value that \<^verbatim>\<open>calc_score\<close> writes into the cell \<open>(i, j)\<close> of \<open>sm\<close>.\<close>

definition cell_value :: "params \<Rightarrow> string \<Rightarrow> string \<Rightarrow> score_matrix \<Rightarrow> int \<Rightarrow> int \<Rightarrow> int" where
  "cell_value P seq1 seq2 sm i j =
     max 0
       (max (sm ! nat (i - 1) ! nat (j - 1)
               + (if seq1 ! nat (i - 1) = seq2 ! nat (j - 1) then MATCH_SCORE P
                  else MISMATCH_SCORE P))
          (max (sm ! nat (i - 1) ! nat j + GAP_SCORE P)
               (sm ! nat i ! nat (j - 1) + GAP_SCORE P)))"

text \<open>The trial for the copy count \<open>k\<close>: what the loop of the realigner records for it.\<close>

definition trial_of :: "params \<Rightarrow> string \<Rightarrow> string \<Rightarrow> string \<Rightarrow> string \<Rightarrow> int \<Rightarrow> trial" where
  "trial_of P seq pre_flank post_flank motif k =
     (case smith_waterman P (var_realign_string pre_flank post_flank motif k) seq of
        Inl e \<Rightarrow> (k, 0, 0)
      | Inr (pos, score) \<Rightarrow> (k, pos, score))"

text \<open>
  The update of \<^verbatim>\<open>(max_score, max_nCopy, max_pos)\<close> that the loop of the realigner
  makes after the trial \<open>t\<close>: a strictly greater score replaces the three values.
\<close>

definition keep_best :: "int \<times> int \<times> int \<Rightarrow> trial \<Rightarrow> int \<times> int \<times> int" where
  "keep_best best t =
     (case best of (max_score, max_nCopy, max_pos) \<Rightarrow>
        (case t of (current_nCopy, current_pos, current_score) \<Rightarrow>
           if current_score > max_score then (current_score, current_nCopy, current_pos)
           else (max_score, max_nCopy, max_pos)))"

definition trial_nCopy :: "trial \<Rightarrow> int" where
  "trial_nCopy t = fst t"

definition trial_score :: "trial \<Rightarrow> int" where
  "trial_score t = snd (snd t)"

section \<open>Checked access and the cell scorer\<close>

lemma vec_at_cases:
  "(vec_at xs i = Inl e) = (e = OutOfRange \<and> \<not> (0 \<le> i \<and> i < int (length xs)))"
  "(vec_at xs i = Inr v) = (0 \<le> i \<and> i < int (length xs) \<and> v = xs ! nat i)"
  by (auto simp add: vec_at_def)

lemma matrix_at_Inr:
  "(matrix_at sm i j = Inr v) =
     (0 \<le> i \<and> i < int (length sm) \<and> 0 \<le> j \<and> j < int (length (sm ! nat i)) \<and> v = sm ! nat i ! nat j)"
  by (auto simp add: matrix_at_def vec_at_def split: sum.splits)

lemma matrix_at_Inl:
  "(matrix_at sm i j = Inl e) =
     (e = OutOfRange \<and> \<not> (0 \<le> i \<and> i < int (length sm) \<and> 0 \<le> j \<and> j < int (length (sm ! nat i))))"
  by (auto simp add: matrix_at_def vec_at_def split: sum.splits)

lemma matrix_set_Inr:
  "(matrix_set sm i j v = Inr sm') =
     (0 \<le> i \<and> i < int (length sm) \<and> 0 \<le> j \<and> j < int (length (sm ! nat i))
      \<and> sm' = sm[nat i := (sm ! nat i)[nat j := v]])"
  by (auto simp add: matrix_set_def vec_at_def split: sum.splits)

lemma matrix_set_Inl:
  "(matrix_set sm i j v = Inl e) =
     (e = OutOfRange \<and> \<not> (0 \<le> i \<and> i < int (length sm) \<and> 0 \<le> j \<and> j < int (length (sm ! nat i))))"
  by (auto simp add: matrix_set_def vec_at_def split: sum.splits)

lemma case_sum_Inr_iff:
  "((case x of Inl e \<Rightarrow> Inl e | Inr v \<Rightarrow> f v) = Inr r) = (\<exists>v. x = Inr v \<and> f v = Inr r)"
  by (cases x) auto

lemma case_sum_Inl_iff:
  "((case x of Inl e \<Rightarrow> Inl e | Inr v \<Rightarrow> f v) = Inl e') = (x = Inl e' \<or> (\<exists>v. x = Inr v \<and> f v = Inl e'))"
  by (cases x) auto

lemma if_chain_max:
  "(if l + g > (if u + g > (if d > (0::int) then d else 0) then u + g else (if d > 0 then d else 0))
    then l + g else (if u + g > (if d > 0 then d else 0) then u + g else (if d > 0 then d else 0)))
   = max 0 (max d (max (u + g) (l + g)))"
  by (simp add: max_def)

lemma calc_score_Inr:
  "(calc_score P i j seq1 seq2 sm = Inr sm') =
     (1 \<le> i \<and> i \<le> int (length seq1) \<and> 1 \<le> j \<and> j \<le> int (length seq2)
      \<and> i < int (length sm)
      \<and> j < int (length (sm ! nat (i - 1))) \<and> j < int (length (sm ! nat i))
      \<and> sm' = sm[nat i := (sm ! nat i)[nat j := cell_value P seq1 seq2 sm i j]])"
  unfolding calc_score_def Let_def cell_value_def if_chain_max [symmetric]
  apply (simp only: case_sum_Inr_iff vec_at_cases matrix_at_Inr matrix_set_Inr)
  apply (rule iffI)
   apply (elim exE conjE)
   apply simp
  apply (elim exE conjE)
  apply simp
  done

lemma calc_score_Inl:
  "calc_score P i j seq1 seq2 sm = Inl e \<Longrightarrow> e = OutOfRange"
  unfolding calc_score_def Let_def
  apply (simp only: case_sum_Inl_iff vec_at_cases matrix_at_Inl matrix_set_Inl)
  apply (elim exE conjE disjE)
  apply simp_all
  done

lemma cells_nonneg_nth:
  "cells_nonneg sm = (\<forall>a < length sm. \<forall>b < length (sm ! a). 0 \<le> sm ! a ! b)"
  by (simp add: cells_nonneg_def list_all_length)

lemma row0_zero_nth:
  "row0_zero sm = (sm \<noteq> [] \<longrightarrow> (\<forall>b < length (sm ! 0). sm ! 0 ! b = 0))"
  by (cases sm) (simp_all add: row0_zero_def list_all_length)

lemma hd_zero_nth: "(case r of [] \<Rightarrow> True | v # _ \<Rightarrow> v = (0::int)) = (r \<noteq> [] \<longrightarrow> r ! 0 = 0)"
  by (cases r) simp_all

lemma col0_zero_nth:
  "col0_zero sm = (\<forall>a < length sm. sm ! a \<noteq> [] \<longrightarrow> sm ! a ! 0 = 0)"
  by (simp add: col0_zero_def list_all_length hd_zero_nth)

lemma length_matrix_update:
  "a < length sm \<Longrightarrow> length (sm[i := (sm ! i)[j := v]] ! a) = length (sm ! a)"
  by (cases "a = i") simp_all

lemma nth_matrix_update:
  "a < length sm \<Longrightarrow> b < length (sm ! a) \<Longrightarrow>
   sm[i := (sm ! i)[j := v]] ! a ! b = (if a = i \<and> b = j then v else sm ! a ! b)"
  by (cases "a = i"; cases "b = j") simp_all

lemma cell_value_nonneg: "0 \<le> cell_value P seq1 seq2 sm i j"
  by (simp add: cell_value_def)

lemma calc_score_preserves_invariant:
  assumes inv: "matrix_invariant sm" and ok: "calc_score P i j seq1 seq2 sm = Inr sm'"
  shows "matrix_invariant sm'"
proof -
  from ok have i: "1 \<le> i" "i < int (length sm)" and j: "1 \<le> j" "j < int (length (sm ! nat i))"
    and sm': "sm' = sm[nat i := (sm ! nat i)[nat j := cell_value P seq1 seq2 sm i j]]"
    by (simp_all add: calc_score_Inr)
  from i j have ni: "0 < nat i" "nat i < length sm" and nj: "0 < nat j" "nat j < length (sm ! nat i)"
    by simp_all
  from inv have nn: "\<And>a b. a < length sm \<Longrightarrow> b < length (sm ! a) \<Longrightarrow> 0 \<le> sm ! a ! b"
    and r0: "\<And>b. b < length (sm ! 0) \<Longrightarrow> sm ! 0 ! b = 0"
    and c0: "\<And>a. a < length sm \<Longrightarrow> sm ! a \<noteq> [] \<Longrightarrow> sm ! a ! 0 = 0"
    using ni by (auto simp add: matrix_invariant_def cells_nonneg_nth row0_zero_nth col0_zero_nth)
  have "cells_nonneg sm'"
    unfolding cells_nonneg_nth sm'
    using nn cell_value_nonneg [of P seq1 seq2 sm i j]
    by (simp add: length_matrix_update nth_matrix_update)
  moreover have "row0_zero sm'"
    unfolding row0_zero_nth sm' using r0 ni by (simp add: length_matrix_update nth_matrix_update)
  moreover have "col0_zero sm'"
  proof -
    have "sm' ! a ! 0 = 0" if a: "a < length sm'" and ne: "sm' ! a \<noteq> []" for a
    proof -
      from a have a': "a < length sm" by (simp add: sm')
      with ne have "sm ! a \<noteq> []"
        using length_matrix_update [OF a', of "nat i" "nat j"] by (auto simp add: sm')
      with a' c0 nj show ?thesis by (simp add: sm' nth_matrix_update)
    qed
    then show ?thesis by (simp add: col0_zero_nth)
  qed
  ultimately show ?thesis by (simp add: matrix_invariant_def)
qed

text \<open>
  C9. On a matrix allocated for the two sequences (one row more than \<open>seq1\<close> has
  characters, one column more than \<open>seq2\<close> has), and for indices from \<open>(1, 1)\<close> on, the
  cell scorer fails with the range error exactly when \<open>i\<close> or \<open>j\<close> is outside the matrix;
  inside it succeeds.
\<close>

theorem calc_score_in_bounds:
  assumes "has_dims sm (length seq1 + 1) (length seq2 + 1)" and "1 \<le> i" and "1 \<le> j"
  shows "if i < int (length seq1) + 1 \<and> j < int (length seq2) + 1
         then (\<exists>sm'. calc_score P i j seq1 seq2 sm = Inr sm')
         else calc_score P i j seq1 seq2 sm = Inl OutOfRange"
proof -
  from assms(1) have len: "length sm = length seq1 + 1"
    and row: "\<And>a. a < length sm \<Longrightarrow> length (sm ! a) = length seq2 + 1"
    by (simp_all add: has_dims_def list_all_length)
  show ?thesis
  proof (cases "i < int (length seq1) + 1 \<and> j < int (length seq2) + 1")
    case True
    with assms(2,3) len have "nat i < length sm" "nat (i - 1) < length sm" by linarith+
    then have "length (sm ! nat i) = length seq2 + 1" "length (sm ! nat (i - 1)) = length seq2 + 1"
      using row by simp_all
    with True assms(2,3) len show ?thesis by (simp add: calc_score_Inr)
  next
    case False
    then have "\<not> (i \<le> int (length seq1) \<and> j \<le> int (length seq2))" by auto
    then have "\<And>sm'. calc_score P i j seq1 seq2 sm \<noteq> Inr sm'"
      by (auto simp add: calc_score_Inr)
    then obtain e where "calc_score P i j seq1 seq2 sm = Inl e"
      by (cases "calc_score P i j seq1 seq2 sm") auto
    with calc_score_Inl [of P i j seq1 seq2 sm e] False show ?thesis by simp
  qed
qed

theorem calc_score_in_bounds_witness:
  "has_dims (initial_matrix 3 3) (length ''AC'' + 1) (length ''AC'' + 1)
   \<and> (\<exists>sm'. calc_score example_params 1 1 ''AC'' ''AC'' (initial_matrix 3 3) = Inr sm')
   \<and> calc_score example_params 3 1 ''AC'' ''AC'' (initial_matrix 3 3) = Inl OutOfRange"
proof -
  have d: "has_dims (initial_matrix 3 3) (length ''AC'' + 1) (length ''AC'' + 1)"
    by (simp add: has_dims_def initial_matrix_def list_all_length)
  from calc_score_in_bounds [OF d, of 1 1 example_params]
    calc_score_in_bounds [OF d, of 3 1 example_params] d
  show ?thesis by simp
qed

section \<open>The score matrix builder and the local aligner\<close>

lemma sw_cell_col0: "sw_cell P seq1 seq2 a 0 = 0"
  by (cases a) simp_all

lemma sw_cell_nonneg: "0 \<le> sw_cell P seq1 seq2 a b"
  by (cases a; cases b) simp_all

lemma visited_Suc: "visited i (Suc j) a b = (visited i j a b \<or> (a = i \<and> b = j))"
  by (auto simp add: visited_def)

lemma fill_inv_dims:
  assumes "fill_inv P seq1 seq2 i j (sm, ms, mr, mc)"
  shows "length sm = length seq1 + 1"
    and "\<And>a. a \<le> length seq1 \<Longrightarrow> length (sm ! a) = length seq2 + 1"
    and "\<And>a b. a \<le> length seq1 \<Longrightarrow> b \<le> length seq2 \<Longrightarrow>
           sm ! a ! b = (if visited i j a b then sw_cell P seq1 seq2 a b else 0)"
  using assms by (simp_all add: fill_inv_def)

lemma cell_value_sw_cell:
  assumes inv: "fill_inv P seq1 seq2 i j (sm, ms, mr, mc)"
    and i: "1 \<le> i" "i \<le> length seq1" and j: "1 \<le> j" "j \<le> length seq2"
  shows "cell_value P seq1 seq2 sm (int i) (int j) = sw_cell P seq1 seq2 i j"
proof -
  from i j obtain i' j' where ij: "i = Suc i'" "j = Suc j'"
    by (cases i; cases j) simp_all
  have d: "sm ! i' ! j' = sw_cell P seq1 seq2 i' j'"
    using fill_inv_dims(3) [OF inv, of i' j'] i j ij by (simp add: visited_def)
  have u: "sm ! i' ! j = sw_cell P seq1 seq2 i' j"
    using fill_inv_dims(3) [OF inv, of i' j] i j ij by (simp add: visited_def)
  have l: "sm ! i ! j' = sw_cell P seq1 seq2 i j'"
    using fill_inv_dims(3) [OF inv, of i j'] i j ij by (simp add: visited_def)
  have n: "nat (int i - 1) = i'" "nat (int j - 1) = j'" using ij by simp_all
  show ?thesis
    unfolding cell_value_def n nat_int d u l
    by (simp add: ij)
qed

lemma fill_step:
  assumes inv: "fill_inv P seq1 seq2 i j (sm, ms, mr, mc)"
    and i: "1 \<le> i" "i \<le> length seq1" and j: "1 \<le> j" "j \<le> length seq2"
  shows "\<exists>sm'. calc_score P (int i) (int j) seq1 seq2 sm = Inr sm'
           \<and> matrix_at sm' (int i) (int j) = Inr (sw_cell P seq1 seq2 i j)
           \<and> fill_inv P seq1 seq2 i (Suc j)
               (if sw_cell P seq1 seq2 i j > ms then (sm', sw_cell P seq1 seq2 i j, int i, int j)
                else (sm', ms, mr, mc))"
proof -
  let ?v = "sw_cell P seq1 seq2 i j"
  let ?sm' = "sm[i := (sm ! i)[j := ?v]]"
  note dims = fill_inv_dims [OF inv]
  have li: "length (sm ! i) = length seq2 + 1" "length (sm ! (i - 1)) = length seq2 + 1"
    using dims(2) i by simp_all
  have calc: "calc_score P (int i) (int j) seq1 seq2 sm = Inr ?sm'"
    using i j dims(1) li cell_value_sw_cell [OF inv i j]
    by (simp add: calc_score_Inr nat_diff_distrib)
  have at: "matrix_at ?sm' (int i) (int j) = Inr ?v"
    using i j dims(1) li by (simp add: matrix_at_Inr)
  have len: "length ?sm' = length seq1 + 1" using dims(1) by simp
  have rows: "length (?sm' ! a) = length seq2 + 1" if "a \<le> length seq1" for a
    using that dims(1,2) by (simp add: length_matrix_update)
  have cells: "?sm' ! a ! b = (if visited i (Suc j) a b then sw_cell P seq1 seq2 a b else 0)"
    if "a \<le> length seq1" "b \<le> length seq2" for a b
  proof -
    have "?sm' ! a ! b = (if a = i \<and> b = j then ?v else sm ! a ! b)"
      using that dims(1,2) by (simp add: nth_matrix_update)
    moreover have "\<not> visited i j i j" by (simp add: visited_def)
    ultimately show ?thesis using dims(3) [OF that] by (auto simp add: visited_Suc)
  qed
  from inv have bound: "\<And>a b. a \<le> length seq1 \<Longrightarrow> b \<le> length seq2 \<Longrightarrow> visited i j a b \<Longrightarrow>
      sw_cell P seq1 seq2 a b \<le> ms"
    and best: "(ms = 0 \<and> mr = -1 \<and> mc = -1)
           \<or> (0 < ms \<and> 1 \<le> mr \<and> mr \<le> int (length seq1)
              \<and> 1 \<le> mc \<and> mc \<le> int (length seq2)
              \<and> sw_cell P seq1 seq2 (nat mr) (nat mc) = ms)"
    by (simp_all add: fill_inv_def)
  have ms0: "0 \<le> ms" using best by auto
  have inv': "fill_inv P seq1 seq2 i (Suc j)
               (if ?v > ms then (?sm', ?v, int i, int j) else (?sm', ms, mr, mc))"
  proof (cases "?v > ms")
    case True
    have "sw_cell P seq1 seq2 a b \<le> ?v"
      if "a \<le> length seq1" "b \<le> length seq2" "visited i (Suc j) a b" for a b
      using that bound [of a b] True by (auto simp add: visited_Suc)
    with True ms0 i j len rows cells show ?thesis
      by (simp add: fill_inv_def)
  next
    case False
    have "sw_cell P seq1 seq2 a b \<le> ms"
      if "a \<le> length seq1" "b \<le> length seq2" "visited i (Suc j) a b" for a b
      using that bound [of a b] False by (auto simp add: visited_Suc)
    with False best len rows cells show ?thesis
      by (simp add: fill_inv_def)
  qed
  from calc at inv' show ?thesis by simp
qed

lemma fill_row_correct:
  assumes "fill_inv P seq1 seq2 i j st" and "1 \<le> i" and "i \<le> length seq1"
    and "1 \<le> j" and "j \<le> length seq2 + 1"
  shows "\<exists>st'. fill_row P (int (length seq2) + 1) seq1 seq2 (int i) (int j) st = Inr st'
            \<and> fill_inv P seq1 seq2 i (Suc (length seq2)) st'"
  using assms
proof (induction "length seq2 + 1 - j" arbitrary: j st)
  case 0
  then have j: "j = Suc (length seq2)" by simp
  obtain sm ms mr mc where st: "st = (sm, ms, mr, mc)" by (cases st) auto
  have "fill_row P (int (length seq2) + 1) seq1 seq2 (int i) (int j) st = Inr st"
    unfolding st by (subst fill_row.simps) (simp add: j)
  with "0.prems"(1) j show ?case by simp
next
  case (Suc d)
  then have j: "1 \<le> j" "j \<le> length seq2" by simp_all
  obtain sm ms mr mc where st: "st = (sm, ms, mr, mc)" by (cases st) auto
  let ?v = "sw_cell P seq1 seq2 i j"
  from fill_step [OF Suc.prems(1) [unfolded st] Suc.prems(2,3) j]
  obtain sm' where calc: "calc_score P (int i) (int j) seq1 seq2 sm = Inr sm'"
    and at: "matrix_at sm' (int i) (int j) = Inr ?v"
    and inv': "fill_inv P seq1 seq2 i (Suc j)
                 (if ?v > ms then (sm', ?v, int i, int j) else (sm', ms, mr, mc))"
    by blast
  let ?st' = "if ?v > ms then (sm', ?v, int i, int j) else (sm', ms, mr, mc)"
  have d: "d = length seq2 + 1 - Suc j" using Suc.hyps(2) by simp
  from Suc.hyps(1) [OF d inv' Suc.prems(2,3)] j
  obtain st'' where rec: "fill_row P (int (length seq2) + 1) seq1 seq2 (int i) (int (Suc j)) ?st' = Inr st''"
    and inv'': "fill_inv P seq1 seq2 i (Suc (length seq2)) st''"
    by auto
  have e: "int (Suc j) = int j + 1" by simp
  have lt: "int j < int (length seq2) + 1" using j by simp
  have "fill_row P (int (length seq2) + 1) seq1 seq2 (int i) (int j) st = Inr st''"
    unfolding st
    by (subst fill_row.simps) (simp only: lt if_True calc at sum.case rec [unfolded e])
  with inv'' show ?case by simp
qed

lemma fill_inv_next_row:
  assumes "fill_inv P seq1 seq2 i (Suc (length seq2)) st"
  shows "fill_inv P seq1 seq2 (Suc i) 1 st"
proof -
  obtain sm ms mr mc where st: "st = (sm, ms, mr, mc)" by (cases st) auto
  note dims = fill_inv_dims [OF assms [unfolded st]]
  from assms have bound: "\<And>a b. a \<le> length seq1 \<Longrightarrow> b \<le> length seq2 \<Longrightarrow>
      visited i (Suc (length seq2)) a b \<Longrightarrow> sw_cell P seq1 seq2 a b \<le> ms"
    and best: "(ms = 0 \<and> mr = -1 \<and> mc = -1)
           \<or> (0 < ms \<and> 1 \<le> mr \<and> mr \<le> int (length seq1)
              \<and> 1 \<le> mc \<and> mc \<le> int (length seq2)
              \<and> sw_cell P seq1 seq2 (nat mr) (nat mc) = ms)"
    by (simp_all add: fill_inv_def st)
  have ms: "0 \<le> ms" using best by auto
  have v: "visited (Suc i) (Suc 0) a b = (visited i (Suc (length seq2)) a b \<or> (a = Suc i \<and> b = 0))"
    if "b \<le> length seq2" for a b
    using that by (auto simp add: visited_def)
  have cells: "sm ! a ! b = (if visited (Suc i) 1 a b then sw_cell P seq1 seq2 a b else 0)"
    if "a \<le> length seq1" "b \<le> length seq2" for a b
  proof (cases "a = Suc i \<and> b = 0")
    case True
    then have "\<not> visited i (Suc (length seq2)) a b" by (simp add: visited_def)
    with dims(3) [OF that] True show ?thesis by (simp add: v sw_cell_col0)
  next
    case False
    with dims(3) [OF that] that show ?thesis by (simp add: v)
  qed
  have bound': "sw_cell P seq1 seq2 a b \<le> ms"
    if "a \<le> length seq1" "b \<le> length seq2" "visited (Suc i) 1 a b" for a b
  proof (cases "a = Suc i \<and> b = 0")
    case True
    with ms show ?thesis by (simp add: sw_cell_col0)
  next
    case False
    with that bound [of a b] show ?thesis by (simp add: v)
  qed
  show ?thesis
    unfolding fill_inv_def st using dims(1,2) cells bound' best by simp
qed

lemma fill_rows_correct:
  assumes "fill_inv P seq1 seq2 i 1 st" and "1 \<le> i" and "i \<le> length seq1 + 1"
  shows "\<exists>st'. fill_rows P (int (length seq1) + 1) (int (length seq2) + 1) seq1 seq2 (int i) st = Inr st'
            \<and> fill_inv P seq1 seq2 (Suc (length seq1)) 1 st'"
  using assms
proof (induction "length seq1 + 1 - i" arbitrary: i st)
  case 0
  then have i: "i = Suc (length seq1)" by simp
  have "fill_rows P (int (length seq1) + 1) (int (length seq2) + 1) seq1 seq2 (int i) st = Inr st"
    by (subst fill_rows.simps) (simp add: i)
  with "0.prems"(1) i show ?case by simp
next
  case (Suc d)
  then have i: "1 \<le> i" "i \<le> length seq1" by simp_all
  from fill_row_correct [OF Suc.prems(1) i]
  obtain st' where row: "fill_row P (int (length seq2) + 1) seq1 seq2 (int i) 1 st = Inr st'"
    and inv': "fill_inv P seq1 seq2 i (Suc (length seq2)) st'"
    by auto
  have d: "d = length seq1 + 1 - Suc i" using Suc.hyps(2) by simp
  from Suc.hyps(1) [OF d fill_inv_next_row [OF inv']] i
  obtain st'' where rec: "fill_rows P (int (length seq1) + 1) (int (length seq2) + 1) seq1 seq2
                            (int (Suc i)) st' = Inr st''"
    and inv'': "fill_inv P seq1 seq2 (Suc (length seq1)) 1 st''"
    by auto
  have e: "int (Suc i) = int i + 1" by simp
  have lt: "int i < int (length seq1) + 1" using i by simp
  have "fill_rows P (int (length seq1) + 1) (int (length seq2) + 1) seq1 seq2 (int i) st = Inr st''"
    by (subst fill_rows.simps) (simp only: lt if_True row sum.case rec [unfolded e])
  with inv'' show ?case by simp
qed

lemma fill_inv_initial:
  "fill_inv P seq1 seq2 1 1
     (initial_matrix (int (length seq1) + 1) (int (length seq2) + 1), 0, -1, -1)"
proof -
  have n: "nat (int (length seq1) + 1) = Suc (length seq1)" "nat (int (length seq2) + 1) = Suc (length seq2)"
    by simp_all
  have z: "visited 1 1 a b \<Longrightarrow> sw_cell P seq1 seq2 a b = 0" for a b
    by (cases a; cases b) (auto simp add: visited_def)
  show ?thesis
    unfolding fill_inv_def initial_matrix_def n
    by (simp add: z del: replicate_Suc)
qed

lemma create_score_matrix_correct:
  "\<exists>sm' sp sc.
     create_score_matrix P (int (length seq1) + 1) (int (length seq2) + 1) seq1 seq2
       (initial_matrix (int (length seq1) + 1) (int (length seq2) + 1)) = Inr (sm', sp, sc)
     \<and> length sm' = length seq1 + 1
     \<and> (\<forall>a \<le> length seq1. length (sm' ! a) = length seq2 + 1)
     \<and> (\<forall>a \<le> length seq1. \<forall>b \<le> length seq2. sm' ! a ! b = sw_cell P seq1 seq2 a b)
     \<and> (\<forall>a \<le> length seq1. \<forall>b \<le> length seq2. sw_cell P seq1 seq2 a b \<le> sc)
     \<and> ((sc = 0 \<and> sp = -1)
        \<or> (0 < sc \<and> 1 \<le> sp \<and> sp \<le> int (length seq1)
           \<and> (\<exists>b. 1 \<le> b \<and> b \<le> length seq2 \<and> sw_cell P seq1 seq2 (nat sp) b = sc)))"
proof -
  let ?rows = "int (length seq1) + 1" and ?cols = "int (length seq2) + 1"
  from fill_rows_correct [OF fill_inv_initial, of seq1 P seq2]
  obtain st where run: "fill_rows P ?rows ?cols seq1 seq2 1 (initial_matrix ?rows ?cols, 0, -1, -1) = Inr st"
    and inv: "fill_inv P seq1 seq2 (Suc (length seq1)) 1 st"
    by auto
  obtain sm ms mr mc where st: "st = (sm, ms, mr, mc)" by (cases st) auto
  note dims = fill_inv_dims [OF inv [unfolded st]]
  have vis: "visited (Suc (length seq1)) 1 a b" if "a \<le> length seq1" for a b
    using that by (simp add: visited_def)
  from inv have bound: "\<And>a b. a \<le> length seq1 \<Longrightarrow> b \<le> length seq2 \<Longrightarrow>
       sw_cell P seq1 seq2 a b \<le> ms"
    and best: "(ms = 0 \<and> mr = -1 \<and> mc = -1)
           \<or> (0 < ms \<and> 1 \<le> mr \<and> mr \<le> int (length seq1)
              \<and> 1 \<le> mc \<and> mc \<le> int (length seq2)
              \<and> sw_cell P seq1 seq2 (nat mr) (nat mc) = ms)"
    using vis by (simp_all add: fill_inv_def st)
  have cells: "sm ! a ! b = sw_cell P seq1 seq2 a b" if "a \<le> length seq1" "b \<le> length seq2" for a b
    using dims(3) [OF that] vis [OF that(1)] by simp
  from best show ?thesis
  proof
    assume z: "ms = 0 \<and> mr = -1 \<and> mc = -1"
    then have "create_score_matrix P ?rows ?cols seq1 seq2 (initial_matrix ?rows ?cols) = Inr (sm, -1, 0)"
      by (simp add: create_score_matrix_def run st)
    with dims(1,2) cells bound z show ?thesis by simp
  next
    assume p: "0 < ms \<and> 1 \<le> mr \<and> mr \<le> int (length seq1)
              \<and> 1 \<le> mc \<and> mc \<le> int (length seq2)
              \<and> sw_cell P seq1 seq2 (nat mr) (nat mc) = ms"
    then have "create_score_matrix P ?rows ?cols seq1 seq2 (initial_matrix ?rows ?cols) = Inr (sm, mr, ms)"
      by (simp add: create_score_matrix_def run st)
    moreover from p have "\<exists>b. 1 \<le> b \<and> b \<le> length seq2 \<and> sw_cell P seq1 seq2 (nat mr) b = ms"
      by (intro exI [of _ "nat mc"]) auto
    ultimately show ?thesis using dims(1,2) cells bound p by simp
  qed
qed

lemma smith_waterman_spec:
  "\<exists>pos sc.
     smith_waterman P seq1 seq2 = Inr (pos, sc)
     \<and> (\<forall>a \<le> length seq1. \<forall>b \<le> length seq2. sw_cell P seq1 seq2 a b \<le> sc)
     \<and> ((sc = 0 \<and> pos = -1 - int (length seq2))
        \<or> (0 < sc \<and> 1 \<le> pos + int (length seq2) \<and> pos + int (length seq2) \<le> int (length seq1)
           \<and> (\<exists>b. 1 \<le> b \<and> b \<le> length seq2
                  \<and> sw_cell P seq1 seq2 (nat (pos + int (length seq2))) b = sc)))"
proof -
  from create_score_matrix_correct [of P seq1 seq2]
  obtain sm' sp sc where c: "create_score_matrix P (int (length seq1) + 1) (int (length seq2) + 1) seq1 seq2
       (initial_matrix (int (length seq1) + 1) (int (length seq2) + 1)) = Inr (sm', sp, sc)"
    and bound: "\<forall>a \<le> length seq1. \<forall>b \<le> length seq2. sw_cell P seq1 seq2 a b \<le> sc"
    and best: "(sc = 0 \<and> sp = -1)
        \<or> (0 < sc \<and> 1 \<le> sp \<and> sp \<le> int (length seq1)
           \<and> (\<exists>b. 1 \<le> b \<and> b \<le> length seq2 \<and> sw_cell P seq1 seq2 (nat sp) b = sc))"
    by blast
  have "smith_waterman P seq1 seq2 = Inr (sp - int (length seq2), sc)"
    by (simp add: smith_waterman_def c)
  with bound best show ?thesis by auto
qed

lemma initial_matrix_invariant: "matrix_invariant (initial_matrix rows cols)"
  unfolding matrix_invariant_def cells_nonneg_nth row0_zero_nth col0_zero_nth initial_matrix_def
  by simp

lemma matrix_invariant_sw_cells:
  assumes len: "length sm = length seq1 + 1"
    and rows: "\<forall>a \<le> length seq1. length (sm ! a) = length seq2 + 1"
    and cells: "\<forall>a \<le> length seq1. \<forall>b \<le> length seq2. sm ! a ! b = sw_cell P seq1 seq2 a b"
  shows "matrix_invariant sm" and "has_dims sm (length seq1 + 1) (length seq2 + 1)"
proof -
  have "cells_nonneg sm"
    unfolding cells_nonneg_nth using len rows cells by (simp add: sw_cell_nonneg)
  moreover have "row0_zero sm"
    unfolding row0_zero_nth using len rows cells by simp
  moreover have "col0_zero sm"
    unfolding col0_zero_nth using len rows cells by (simp add: sw_cell_col0)
  ultimately show "matrix_invariant sm" by (simp add: matrix_invariant_def)
  show "has_dims sm (length seq1 + 1) (length seq2 + 1)"
    using len rows by (simp add: has_dims_def list_all_length)
qed

text \<open>
  C6. The matrix that the local aligner allocates satisfies the invariant (no negative
  cell, row 0 and column 0 zero); every successful step of the cell scorer preserves it,
  whatever the scores are; and the matrix that the builder returns for any two sequences
  satisfies it.
\<close>

theorem score_matrix_invariant:
  "matrix_invariant (initial_matrix (int (length seq1) + 1) (int (length seq2) + 1))
   \<and> (\<forall>i j sm sm'. matrix_invariant sm \<longrightarrow> calc_score P i j seq1 seq2 sm = Inr sm'
         \<longrightarrow> matrix_invariant sm')
   \<and> (\<exists>sm' sp sc.
         create_score_matrix P (int (length seq1) + 1) (int (length seq2) + 1) seq1 seq2
           (initial_matrix (int (length seq1) + 1) (int (length seq2) + 1)) = Inr (sm', sp, sc)
         \<and> has_dims sm' (length seq1 + 1) (length seq2 + 1)
         \<and> matrix_invariant sm')"
proof (intro conjI allI impI)
  show "matrix_invariant (initial_matrix (int (length seq1) + 1) (int (length seq2) + 1))"
    by (rule initial_matrix_invariant)
next
  fix i j sm sm'
  assume "matrix_invariant sm" and "calc_score P i j seq1 seq2 sm = Inr sm'"
  then show "matrix_invariant sm'" by (rule calc_score_preserves_invariant)
next
  from create_score_matrix_correct [of P seq1 seq2]
  obtain sm' sp sc where c: "create_score_matrix P (int (length seq1) + 1) (int (length seq2) + 1) seq1 seq2
       (initial_matrix (int (length seq1) + 1) (int (length seq2) + 1)) = Inr (sm', sp, sc)"
    and len: "length sm' = length seq1 + 1"
    and rows: "\<forall>a \<le> length seq1. length (sm' ! a) = length seq2 + 1"
    and cells: "\<forall>a \<le> length seq1. \<forall>b \<le> length seq2. sm' ! a ! b = sw_cell P seq1 seq2 a b"
    by blast
  from c matrix_invariant_sw_cells [OF len rows cells]
  show "\<exists>sm' sp sc.
         create_score_matrix P (int (length seq1) + 1) (int (length seq2) + 1) seq1 seq2
           (initial_matrix (int (length seq1) + 1) (int (length seq2) + 1)) = Inr (sm', sp, sc)
         \<and> has_dims sm' (length seq1 + 1) (length seq2 + 1)
         \<and> matrix_invariant sm'"
    by simp
qed

theorem score_matrix_invariant_witness:
  "matrix_invariant (initial_matrix 3 3)
   \<and> calc_score example_params 1 1 ''AC'' ''AC'' (initial_matrix 3 3)
       = Inr [[0, 0, 0], [0, 3, 0], [0, 0, 0]]
   \<and> matrix_invariant [[0, 0, 0], [0, 3, 0], [0, 0, 0]]
   \<and> create_score_matrix example_params 3 3 ''AC'' ''AC'' (initial_matrix 3 3)
       = Inr ([[0, 0, 0], [0, 3, 0], [0, 0, 6]], 2, 6)
   \<and> matrix_invariant [[0, 0, 0], [0, 3, 0], [0, 0, 6]]"
proof -
  have step: "calc_score example_params 1 1 ''AC'' ''AC'' (initial_matrix 3 3)
       = Inr [[0, 0, 0], [0, 3, 0], [0, 0, 0]]"
    by code_simp
  have fin: "create_score_matrix example_params 3 3 ''AC'' ''AC'' (initial_matrix 3 3)
                 = Inr ([[0, 0, 0], [0, 3, 0], [0, 0, 6]], 2, 6)"
    by code_simp
  from score_matrix_invariant [of "''AC''" "''AC''" example_params] step fin
  show ?thesis by auto
qed

lemma no_positive_cell_nth:
  "no_positive_cell sm = (\<forall>a < length sm. \<forall>b < length (sm ! a). sm ! a ! b \<le> 0)"
  by (simp add: no_positive_cell_def list_all_length)

text \<open>
  C7. On the matrix allocated for two sequences the builder returns without an error,
  and if no cell of the filled matrix exceeds zero it reports the score 0 and the
  position \<open>-1\<close>.
\<close>

theorem no_alignment_sentinel:
  "\<exists>sm' sp sc.
     create_score_matrix P (int (length seq1) + 1) (int (length seq2) + 1) seq1 seq2
       (initial_matrix (int (length seq1) + 1) (int (length seq2) + 1)) = Inr (sm', sp, sc)
     \<and> (no_positive_cell sm' \<longrightarrow> sc = 0 \<and> sp = -1)"
proof -
  from create_score_matrix_correct [of P seq1 seq2]
  obtain sm' sp sc where c: "create_score_matrix P (int (length seq1) + 1) (int (length seq2) + 1) seq1 seq2
       (initial_matrix (int (length seq1) + 1) (int (length seq2) + 1)) = Inr (sm', sp, sc)"
    and len: "length sm' = length seq1 + 1"
    and rows: "\<forall>a \<le> length seq1. length (sm' ! a) = length seq2 + 1"
    and cells: "\<forall>a \<le> length seq1. \<forall>b \<le> length seq2. sm' ! a ! b = sw_cell P seq1 seq2 a b"
    and best: "(sc = 0 \<and> sp = -1)
        \<or> (0 < sc \<and> 1 \<le> sp \<and> sp \<le> int (length seq1)
           \<and> (\<exists>b. 1 \<le> b \<and> b \<le> length seq2 \<and> sw_cell P seq1 seq2 (nat sp) b = sc))"
    by blast
  have "sc = 0 \<and> sp = -1" if np: "no_positive_cell sm'"
  proof (rule ccontr)
    assume "\<not> (sc = 0 \<and> sp = -1)"
    with best obtain b where sc: "0 < sc" and sp: "1 \<le> sp" "sp \<le> int (length seq1)"
      and b: "b \<le> length seq2" "sw_cell P seq1 seq2 (nat sp) b = sc"
      by auto
    from sp have a: "nat sp \<le> length seq1" by simp
    with cells b have "sm' ! nat sp ! b = sc" by simp
    moreover from np a b(1) len rows have "sm' ! nat sp ! b \<le> 0"
      by (simp add: no_positive_cell_nth)
    ultimately show False using sc by simp
  qed
  with c show ?thesis by blast
qed

theorem no_alignment_sentinel_witness:
  "create_score_matrix example_params 2 2 ''A'' ''C'' (initial_matrix 2 2)
     = Inr ([[0, 0], [0, 0]], -1, 0)
   \<and> no_positive_cell [[0, 0], [0, 0]]"
proof -
  have np: "no_positive_cell [[0, 0], [0, 0]]"
    by (simp add: no_positive_cell_def)
  have sm: "create_score_matrix example_params 2 2 ''A'' ''C'' (initial_matrix 2 2)
              = Inr ([[0, 0], [0, 0]], -1, 0)"
    by code_simp
  from no_alignment_sentinel [of example_params "''A''" "''C''"] np sm
  show ?thesis by auto
qed

section \<open>Bounds on the cells\<close>

lemma sw_cell_le_rows:
  "standard_scoring P \<Longrightarrow> sw_cell P seq1 seq2 i j \<le> int i * MATCH_SCORE P"
proof (induction P seq1 seq2 i j rule: sw_cell.induct)
  case (1 P seq1 seq2 j)
  then show ?case by simp
next
  case (2 P seq1 seq2 i)
  then show ?case by (simp add: standard_scoring_def)
next
  case (3 P seq1 seq2 i j)
  from 3 have d: "sw_cell P seq1 seq2 i j \<le> int i * MATCH_SCORE P"
    and u: "sw_cell P seq1 seq2 i (Suc j) \<le> int i * MATCH_SCORE P"
    and l: "sw_cell P seq1 seq2 (Suc i) j \<le> int (Suc i) * MATCH_SCORE P"
    by simp_all
  have e: "int (Suc i) * MATCH_SCORE P = int i * MATCH_SCORE P + MATCH_SCORE P"
    by (simp add: algebra_simps)
  have i0: "0 \<le> int i * MATCH_SCORE P"
    using "3.prems" by (simp add: standard_scoring_def)
  from d u l i0 "3.prems" show ?case
    unfolding sw_cell.simps e by (simp add: standard_scoring_def)
qed

lemma sw_cell_le_cols:
  "standard_scoring P \<Longrightarrow> sw_cell P seq1 seq2 i j \<le> int j * MATCH_SCORE P"
proof (induction P seq1 seq2 i j rule: sw_cell.induct)
  case (1 P seq1 seq2 j)
  then show ?case by (simp add: standard_scoring_def)
next
  case (2 P seq1 seq2 i)
  then show ?case by simp
next
  case (3 P seq1 seq2 i j)
  from 3 have d: "sw_cell P seq1 seq2 i j \<le> int j * MATCH_SCORE P"
    and u: "sw_cell P seq1 seq2 i (Suc j) \<le> int (Suc j) * MATCH_SCORE P"
    and l: "sw_cell P seq1 seq2 (Suc i) j \<le> int j * MATCH_SCORE P"
    by simp_all
  have e: "int (Suc j) * MATCH_SCORE P = int j * MATCH_SCORE P + MATCH_SCORE P"
    by (simp add: algebra_simps)
  have j0: "0 \<le> int j * MATCH_SCORE P"
    using "3.prems" by (simp add: standard_scoring_def)
  from d u l j0 "3.prems" show ?case
    unfolding sw_cell.simps e by (simp add: standard_scoring_def)
qed

lemma perfect_step:
  fixes d u l sim g M jM :: int
  assumes "0 < M" and "g < 0" and "sim \<le> M" and "0 \<le> jM" and "d \<le> jM" and "u \<le> jM + M"
    and "l \<le> jM" and "max 0 (max (d + sim) (max (u + g) (l + g))) = jM + M"
  shows "sim = M \<and> d = jM"
  using assms by (simp add: max_def split: if_splits)

lemma sw_cell_perfect_match:
  "standard_scoring P \<Longrightarrow> i \<le> length seq1 \<Longrightarrow> j \<le> length seq2 \<Longrightarrow>
   sw_cell P seq1 seq2 i j = int j * MATCH_SCORE P \<Longrightarrow>
   j \<le> i \<and> take j (drop (i - j) seq1) = take j seq2"
proof (induction P seq1 seq2 i j rule: sw_cell.induct)
  case (1 P seq1 seq2 j)
  then show ?case by (simp add: standard_scoring_def)
next
  case (2 P seq1 seq2 i)
  then show ?case by simp
next
  case (3 P seq1 seq2 i j)
  let ?M = "MATCH_SCORE P"
  let ?sim = "if seq1 ! i = seq2 ! j then MATCH_SCORE P else MISMATCH_SCORE P"
  note std = "3.prems"(1)
  have e: "int (Suc j) * ?M = int j * ?M + ?M" by (simp add: algebra_simps)
  have j0: "0 \<le> int j * ?M" using std by (simp add: standard_scoring_def)
  have d: "sw_cell P seq1 seq2 i j \<le> int j * ?M" by (rule sw_cell_le_cols [OF std])
  have u: "sw_cell P seq1 seq2 i (Suc j) \<le> int j * ?M + ?M"
    using sw_cell_le_cols [OF std, of seq1 seq2 i "Suc j"] by (simp only: e)
  have l: "sw_cell P seq1 seq2 (Suc i) j \<le> int j * ?M" by (rule sw_cell_le_cols [OF std])
  from "3.prems"(4) have v: "max 0 (max (sw_cell P seq1 seq2 i j + ?sim)
          (max (sw_cell P seq1 seq2 i (Suc j) + GAP_SCORE P)
               (sw_cell P seq1 seq2 (Suc i) j + GAP_SCORE P))) = int j * ?M + ?M"
    by (simp only: sw_cell.simps e)
  have sim: "?sim \<le> ?M" using std by (simp add: standard_scoring_def)
  from std have "0 < ?M" "GAP_SCORE P < 0" by (simp_all add: standard_scoring_def)
  from perfect_step [OF this sim j0 d u l v]
  have sM: "?sim = ?M" and dj: "sw_cell P seq1 seq2 i j = int j * ?M" by simp_all
  from sM std have m: "seq1 ! i = seq2 ! j"
    by (simp add: standard_scoring_def split: if_splits)
  from "3.IH"(1) [OF std _ _ dj] "3.prems"(2,3)
  have ji: "j \<le> i" and tk: "take j (drop (i - j) seq1) = take j seq2" by simp_all
  have i: "i < length seq1" and j: "j < length seq2" using "3.prems"(2,3) by simp_all
  have "take (Suc j) (drop (i - j) seq1) = take j (drop (i - j) seq1) @ [drop (i - j) seq1 ! j]"
    using i ji by (simp add: take_Suc_conv_app_nth)
  also have "drop (i - j) seq1 ! j = seq1 ! i" using i ji by simp
  also have "take j (drop (i - j) seq1) @ [seq1 ! i] = take (Suc j) seq2"
    using j by (simp add: tk m take_Suc_conv_app_nth)
  finally show ?case using ji by simp
qed

lemma sw_cell_match_lower:
  "off + j \<le> length seq1 \<Longrightarrow> j \<le> length seq2 \<Longrightarrow> take j (drop off seq1) = take j seq2 \<Longrightarrow>
   int j * MATCH_SCORE P \<le> sw_cell P seq1 seq2 (off + j) j"
proof (induction j)
  case 0
  then show ?case by (simp add: sw_cell_col0)
next
  case (Suc j)
  have i: "off + j < length seq1" and j: "j < length seq2" using Suc.prems by simp_all
  from Suc.prems(3) have "take j (take (Suc j) (drop off seq1)) = take j (take (Suc j) seq2)"
    by simp
  then have tk: "take j (drop off seq1) = take j seq2" by simp
  from Suc.prems(3) have "take (Suc j) (drop off seq1) ! j = take (Suc j) seq2 ! j" by simp
  then have m: "seq1 ! (off + j) = seq2 ! j" using i by simp
  from Suc.IH [OF _ _ tk] i j have ih: "int j * MATCH_SCORE P \<le> sw_cell P seq1 seq2 (off + j) j"
    by simp
  have e: "int (Suc j) * MATCH_SCORE P = int j * MATCH_SCORE P + MATCH_SCORE P"
    by (simp add: algebra_simps)
  show ?case
    unfolding add_Suc_right sw_cell.simps e using ih m by simp
qed

lemma smith_waterman_total: "\<exists>pos sc. smith_waterman P seq1 seq2 = Inr (pos, sc)"
  using smith_waterman_spec [of P seq1 seq2] by blast

lemma smith_waterman_nonneg:
  assumes "smith_waterman P seq1 seq2 = Inr (pos, sc)"
  shows "0 \<le> sc"
  using smith_waterman_spec [of P seq1 seq2] assms by auto

lemma smith_waterman_upper:
  assumes std: "standard_scoring P" and sw: "smith_waterman P seq1 seq2 = Inr (pos, sc)"
  shows "sc \<le> int (length seq2) * MATCH_SCORE P" and "sc \<le> int (length seq1) * MATCH_SCORE P"
proof -
  from std have M: "0 \<le> MATCH_SCORE P" by (simp add: standard_scoring_def)
  from smith_waterman_spec [of P seq1 seq2] sw
  have "sc = 0 \<or> (1 \<le> pos + int (length seq2) \<and> pos + int (length seq2) \<le> int (length seq1)
           \<and> (\<exists>b. b \<le> length seq2
                  \<and> sw_cell P seq1 seq2 (nat (pos + int (length seq2))) b = sc))"
    by auto
  then consider "sc = 0"
    | a b where "a \<le> length seq1" "b \<le> length seq2" "sw_cell P seq1 seq2 a b = sc"
  proof (elim disjE conjE exE)
    fix b
    assume "pos + int (length seq2) \<le> int (length seq1)" "1 \<le> pos + int (length seq2)"
    then have "nat (pos + int (length seq2)) \<le> length seq1" by simp
    moreover assume "b \<le> length seq2" "sw_cell P seq1 seq2 (nat (pos + int (length seq2))) b = sc"
      and "\<And>a b. a \<le> length seq1 \<Longrightarrow> b \<le> length seq2 \<Longrightarrow> sw_cell P seq1 seq2 a b = sc \<Longrightarrow> thesis"
    ultimately show thesis by blast
  qed
  then have "sc \<le> int (length seq2) * MATCH_SCORE P \<and> sc \<le> int (length seq1) * MATCH_SCORE P"
  proof cases
    case 1
    with M show ?thesis by simp
  next
    case 2
    have "sc \<le> int b * MATCH_SCORE P" using sw_cell_le_cols [OF std, of seq1 seq2 a b] 2 by simp
    also have "\<dots> \<le> int (length seq2) * MATCH_SCORE P"
      using 2(2) M by (intro mult_right_mono) simp_all
    finally have c: "sc \<le> int (length seq2) * MATCH_SCORE P" .
    have "sc \<le> int a * MATCH_SCORE P" using sw_cell_le_rows [OF std, of seq1 seq2 a b] 2 by simp
    also have "\<dots> \<le> int (length seq1) * MATCH_SCORE P"
      using 2(1) M by (intro mult_right_mono) simp_all
    finally show ?thesis using c by simp
  qed
  then show "sc \<le> int (length seq2) * MATCH_SCORE P" and "sc \<le> int (length seq1) * MATCH_SCORE P"
    by simp_all
qed

lemma smith_waterman_perfect_pos:
  assumes std: "standard_scoring P" and sw: "smith_waterman P seq1 seq2 = Inr (pos, sc)"
    and perfect: "sc = int (length seq2) * MATCH_SCORE P" and ne: "seq2 \<noteq> []"
  shows "0 \<le> pos \<and> pos + int (length seq2) \<le> int (length seq1)
         \<and> take (length seq2) (drop (nat pos) seq1) = seq2"
proof -
  let ?n = "length seq2" and ?M = "MATCH_SCORE P"
  from std have M: "0 < ?M" by (simp add: standard_scoring_def)
  with ne perfect have "0 < sc" by simp
  with smith_waterman_spec [of P seq1 seq2] sw
  obtain b where r: "1 \<le> pos + int ?n" "pos + int ?n \<le> int (length seq1)"
    and b: "b \<le> ?n" and c: "sw_cell P seq1 seq2 (nat (pos + int ?n)) b = sc"
    by auto
  have "int ?n * ?M \<le> int b * ?M"
    using sw_cell_le_cols [OF std, of seq1 seq2 "nat (pos + int ?n)" b] c perfect by simp
  with M have "?n \<le> b" by simp
  with b have bn: "b = ?n" by simp
  from r have a: "nat (pos + int ?n) \<le> length seq1" by simp
  from sw_cell_perfect_match [OF std a _ c [unfolded bn perfect]]
  have le: "?n \<le> nat (pos + int ?n)"
    and tk: "take ?n (drop (nat (pos + int ?n) - ?n) seq1) = take ?n seq2"
    by simp_all
  from r(1) have "int (nat (pos + int ?n)) = pos + int ?n" by simp
  moreover from le have "int ?n \<le> int (nat (pos + int ?n))" by (simp only: of_nat_le_iff)
  ultimately have p0: "0 \<le> pos" by linarith
  then have "nat (pos + int ?n) - ?n = nat pos" by simp
  with tk p0 r show ?thesis by simp
qed

lemma smith_waterman_perfect_iff:
  assumes std: "standard_scoring P" and sw: "smith_waterman P seq1 seq2 = Inr (pos, sc)"
  shows "(sc = int (length seq2) * MATCH_SCORE P) = (\<exists>ps ss. seq1 = ps @ seq2 @ ss)"
proof
  assume perfect: "sc = int (length seq2) * MATCH_SCORE P"
  show "\<exists>ps ss. seq1 = ps @ seq2 @ ss"
  proof (cases "seq2 = []")
    case True
    then have "seq1 = seq1 @ seq2 @ []" by simp
    then show ?thesis by blast
  next
    case False
    from smith_waterman_perfect_pos [OF std sw perfect False]
    have tk: "take (length seq2) (drop (nat pos) seq1) = seq2" by simp
    have "seq1 = take (nat pos) seq1 @ drop (nat pos) seq1" by simp
    also have "drop (nat pos) seq1 = take (length seq2) (drop (nat pos) seq1)
                 @ drop (length seq2) (drop (nat pos) seq1)"
      by (rule append_take_drop_id [symmetric])
    finally have "seq1 = take (nat pos) seq1 @ seq2 @ drop (length seq2) (drop (nat pos) seq1)"
      by (simp only: tk)
    then show ?thesis by blast
  qed
next
  assume "\<exists>ps ss. seq1 = ps @ seq2 @ ss"
  then obtain ps ss where s: "seq1 = ps @ seq2 @ ss" by blast
  have "int (length seq2) * MATCH_SCORE P \<le> sw_cell P seq1 seq2 (length ps + length seq2) (length seq2)"
    by (rule sw_cell_match_lower) (simp_all add: s)
  also have "\<dots> \<le> sc"
    using smith_waterman_spec [of P seq1 seq2] sw by (auto simp add: s)
  finally show "sc = int (length seq2) * MATCH_SCORE P"
    using smith_waterman_upper(1) [OF std sw] by simp
qed

lemma smith_waterman_self:
  assumes std: "standard_scoring P" and ne: "s \<noteq> []"
  shows "smith_waterman P s s = Inr (0, int (length s) * MATCH_SCORE P)"
proof -
  obtain pos sc where sw: "smith_waterman P s s = Inr (pos, sc)"
    using smith_waterman_total by blast
  have "s = [] @ s @ []" by simp
  then have "\<exists>ps ss. s = ps @ s @ ss" by blast
  then have perfect: "sc = int (length s) * MATCH_SCORE P"
    using smith_waterman_perfect_iff [OF std sw] by simp
  from smith_waterman_perfect_pos [OF std sw perfect ne] have "pos = 0" by simp
  with sw perfect show ?thesis by simp
qed

section \<open>The expansion-aware realigner\<close>

lemma trial_of_sw:
  "smith_waterman P (var_realign_string pre_flank post_flank motif k) seq = Inr (pos, sc) \<Longrightarrow>
   trial_of P seq pre_flank post_flank motif k = (k, pos, sc)"
  by (simp add: trial_of_def)

lemma trial_of_nCopy [simp]: "trial_nCopy (trial_of P seq pre_flank post_flank motif k) = k"
  by (simp add: trial_of_def trial_nCopy_def split: sum.splits prod.splits)

lemma sw_trial_of:
  "smith_waterman P (var_realign_string pre_flank post_flank motif k) seq
     = Inr (snd (trial_of P seq pre_flank post_flank motif k))"
proof -
  obtain pos sc where sw: "smith_waterman P (var_realign_string pre_flank post_flank motif k) seq = Inr (pos, sc)"
    using smith_waterman_total by blast
  then show ?thesis by (simp add: trial_of_sw)
qed

lemma realign_loop_step:
  assumes "k < bound"
  shows "realign_loop P seq pre_flank post_flank motif bound k (best, tried) =
           (let t = trial_of P seq pre_flank post_flank motif k in
            if trial_score t = int (length seq) * MATCH_SCORE P
            then Inr (keep_best best t, tried @ [t])
            else realign_loop P seq pre_flank post_flank motif bound (k + 1)
                   (keep_best best t, tried @ [t]))"
proof -
  obtain pos sc where sw: "smith_waterman P (var_realign_string pre_flank post_flank motif k) seq = Inr (pos, sc)"
    using smith_waterman_total by blast
  obtain ms mn mp where best: "best = (ms, mn, mp)" by (cases best) auto
  show ?thesis
    unfolding best
    apply (subst realign_loop.simps)
    using assms
    apply (simp add: sw trial_of_sw [OF sw] keep_best_def trial_score_def Let_def)
    done
qed

lemma realign_loop_stop:
  assumes "\<not> k < bound"
  shows "realign_loop P seq pre_flank post_flank motif bound k (best, tried) = Inr (best, tried)"
proof -
  obtain ms mn mp where best: "best = (ms, mn, mp)" by (cases best) auto
  show ?thesis
    unfolding best by (subst realign_loop.simps) (simp add: assms)
qed

lemma realign_loop_correct:
  assumes "k \<le> bound"
  shows "\<exists>e. k \<le> e \<and> e \<le> bound
           \<and> realign_loop P seq pre_flank post_flank motif bound k (best, tried)
               = Inr (foldl keep_best best (map (trial_of P seq pre_flank post_flank motif) [k..e - 1]),
                      tried @ map (trial_of P seq pre_flank post_flank motif) [k..e - 1])
           \<and> (\<forall>i. k \<le> i \<and> i < e - 1 \<longrightarrow>
                  trial_score (trial_of P seq pre_flank post_flank motif i)
                    \<noteq> int (length seq) * MATCH_SCORE P)
           \<and> (e = bound
              \<or> (k < e \<and> trial_score (trial_of P seq pre_flank post_flank motif (e - 1))
                          = int (length seq) * MATCH_SCORE P))"
  using assms
proof (induction "nat (bound - k)" arbitrary: k best tried)
  case 0
  then have k: "k = bound" by simp
  have "realign_loop P seq pre_flank post_flank motif bound k (best, tried) = Inr (best, tried)"
    by (rule realign_loop_stop) (simp add: k)
  then show ?case by (intro exI [of _ k]) (simp add: k)
next
  case (Suc d)
  let ?T = "trial_of P seq pre_flank post_flank motif"
  let ?perfect = "int (length seq) * MATCH_SCORE P"
  from Suc.hyps(2) have lt: "k < bound" by simp
  note step = realign_loop_step [OF lt, of P seq pre_flank post_flank motif best tried]
  show ?case
  proof (cases "trial_score (?T k) = ?perfect")
    case True
    with step have "realign_loop P seq pre_flank post_flank motif bound k (best, tried)
        = Inr (keep_best best (?T k), tried @ [?T k])"
      by (simp add: Let_def)
    with True lt show ?thesis by (intro exI [of _ "k + 1"]) simp
  next
    case False
    with step have r: "realign_loop P seq pre_flank post_flank motif bound k (best, tried)
        = realign_loop P seq pre_flank post_flank motif bound (k + 1) (keep_best best (?T k), tried @ [?T k])"
      by (simp add: Let_def)
    have d: "d = nat (bound - (k + 1))" using Suc.hyps(2) by simp
    from Suc.hyps(1) [OF d, of "keep_best best (?T k)" "tried @ [?T k]"] lt
    obtain e where e: "k + 1 \<le> e" "e \<le> bound"
      and run: "realign_loop P seq pre_flank post_flank motif bound (k + 1) (keep_best best (?T k), tried @ [?T k])
          = Inr (foldl keep_best (keep_best best (?T k)) (map ?T [k + 1..e - 1]),
                 (tried @ [?T k]) @ map ?T [k + 1..e - 1])"
      and np: "\<forall>i. k + 1 \<le> i \<and> i < e - 1 \<longrightarrow> trial_score (?T i) \<noteq> ?perfect"
      and fin: "e = bound \<or> (k + 1 < e \<and> trial_score (?T (e - 1)) = ?perfect)"
      by auto
    from e have u: "[k..e - 1] = k # [k + 1..e - 1]" by (simp add: upto_rec1)
    have np': "\<forall>i. k \<le> i \<and> i < e - 1 \<longrightarrow> trial_score (?T i) \<noteq> ?perfect"
    proof (intro allI impI)
      fix i assume i: "k \<le> i \<and> i < e - 1"
      show "trial_score (?T i) \<noteq> ?perfect"
      proof (cases "i = k")
        case True
        with False show ?thesis by simp
      next
        case False
        with i np show ?thesis by simp
      qed
    qed
    from fin e have fin': "e = bound \<or> (k < e \<and> trial_score (?T (e - 1)) = ?perfect)" by auto
    from e r run np' fin' show ?thesis
      by (intro exI [of _ e]) (simp add: u)
  qed
qed

lemma keep_best_simp:
  "keep_best (ms, mn, mp) (k, pos, sc) = (if sc > ms then (sc, k, pos) else (ms, mn, mp))"
  by (simp add: keep_best_def)

lemma keep_best_foldl:
  "foldl keep_best (0, 0, 0) ts = (ms, mn, mp) \<Longrightarrow>
   0 \<le> ms \<and> (\<forall>t \<in> set ts. trial_score t \<le> ms)
   \<and> (if 0 < ms
       then (\<exists>i < length ts. ts ! i = (mn, mp, ms) \<and> (\<forall>i' < i. trial_score (ts ! i') < ms))
       else mn = 0 \<and> mp = 0)"
proof (induction ts arbitrary: ms mn mp rule: rev_induct)
  case Nil
  then show ?case by simp
next
  case (snoc x xs)
  obtain ms0 mn0 mp0 where f: "foldl keep_best (0, 0, 0) xs = (ms0, mn0, mp0)"
    by (cases "foldl keep_best (0, 0, 0) xs") auto
  obtain k pos sc where x: "x = (k, pos, sc)" by (cases x) auto
  note ih = snoc.IH [OF f]
  from ih have ms0: "0 \<le> ms0" and le: "\<And>t. t \<in> set xs \<Longrightarrow> trial_score t \<le> ms0" by simp_all
  show ?case
  proof (cases "sc > ms0")
    case True
    with snoc.prems f x have best: "ms = sc" "mn = k" "mp = pos"
      by (simp_all add: keep_best_simp)
    have "\<forall>t \<in> set (xs @ [x]). trial_score t \<le> ms"
    proof
      fix t assume "t \<in> set (xs @ [x])"
      then consider "t \<in> set xs" | "t = x" by auto
      then show "trial_score t \<le> ms"
      proof cases
        case 1
        from le [OF 1] True best show ?thesis by simp
      next
        case 2
        with x best show ?thesis by (simp add: trial_score_def)
      qed
    qed
    moreover have "(xs @ [x]) ! length xs = (mn, mp, ms)" by (simp add: x best)
    moreover have "\<forall>i' < length xs. trial_score ((xs @ [x]) ! i') < ms"
    proof (intro allI impI)
      fix i' assume i': "i' < length xs"
      then have "xs ! i' \<in> set xs" by simp
      from le [OF this] True best i' show "trial_score ((xs @ [x]) ! i') < ms"
        by (simp add: nth_append)
    qed
    moreover have "0 < ms" using ms0 True best by simp
    ultimately show ?thesis by auto
  next
    case False
    with snoc.prems f x have best: "ms = ms0" "mn = mn0" "mp = mp0"
      by (simp_all add: keep_best_simp)
    have a: "\<forall>t \<in> set (xs @ [x]). trial_score t \<le> ms"
    proof
      fix t assume "t \<in> set (xs @ [x])"
      then consider "t \<in> set xs" | "t = x" by auto
      then show "trial_score t \<le> ms"
      proof cases
        case 1
        from le [OF 1] best show ?thesis by simp
      next
        case 2
        with x best False show ?thesis by (simp add: trial_score_def)
      qed
    qed
    show ?thesis
    proof (cases "0 < ms")
      case True
      with ih best obtain i where i: "i < length xs" "xs ! i = (mn, mp, ms)"
        "\<forall>i' < i. trial_score (xs ! i') < ms"
        by auto
      then have "i < length (xs @ [x])" "(xs @ [x]) ! i = (mn, mp, ms)"
        "\<forall>i' < i. trial_score ((xs @ [x]) ! i') < ms"
        by (simp_all add: nth_append)
      with True a show ?thesis by auto
    next
      case False
      with ih best a ms0 show ?thesis by simp
    qed
  qed
qed

lemma realign_logged_facts:
  assumes "motif \<noteq> []"
  shows "\<exists>e ms mn mp.
     1 \<le> e \<and> e \<le> int (length seq) div int (length motif) + 2
     \<and> realign_logged P seq pre_flank post_flank motif
         = Inr ((4 * int (length motif) - 1, mn, mp, ms),
                map (trial_of P seq pre_flank post_flank motif) [0..e - 1])
     \<and> foldl keep_best (0, 0, 0) (map (trial_of P seq pre_flank post_flank motif) [0..e - 1])
         = (ms, mn, mp)
     \<and> (\<forall>i. 0 \<le> i \<and> i < e - 1 \<longrightarrow>
            trial_score (trial_of P seq pre_flank post_flank motif i)
              \<noteq> int (length seq) * MATCH_SCORE P)
     \<and> (e = int (length seq) div int (length motif) + 2
        \<or> trial_score (trial_of P seq pre_flank post_flank motif (e - 1))
             = int (length seq) * MATCH_SCORE P)"
proof -
  let ?T = "trial_of P seq pre_flank post_flank motif"
  let ?bound = "int (length seq) div int (length motif) + 2"
  have b: "2 \<le> ?bound" by (simp add: div_int_pos_iff)
  then have "0 \<le> ?bound" by simp
  from realign_loop_correct [OF this, of P seq pre_flank post_flank motif "(0, 0, 0)" "[]"]
  obtain e where e: "0 \<le> e" "e \<le> ?bound"
    and run: "realign_loop P seq pre_flank post_flank motif ?bound 0 ((0, 0, 0), [])
               = Inr (foldl keep_best (0, 0, 0) (map ?T [0..e - 1]), map ?T [0..e - 1])"
    and np: "\<forall>i. 0 \<le> i \<and> i < e - 1 \<longrightarrow> trial_score (?T i) \<noteq> int (length seq) * MATCH_SCORE P"
    and fin: "e = ?bound \<or> (0 < e \<and> trial_score (?T (e - 1)) = int (length seq) * MATCH_SCORE P)"
    by auto
  obtain ms mn mp where f: "foldl keep_best (0, 0, 0) (map ?T [0..e - 1]) = (ms, mn, mp)"
    by (cases "foldl keep_best (0, 0, 0) (map ?T [0..e - 1])") auto
  from fin b have e1: "1 \<le> e" by auto
  have "realign_logged P seq pre_flank post_flank motif
         = Inr ((4 * int (length motif) - 1, mn, mp, ms), map ?T [0..e - 1])"
    using assms by (simp add: realign_logged_def Let_def run f)
  with e1 e f np fin show ?thesis by blast
qed

lemma upto_trials_nth:
  assumes "i < nat e"
  shows "map f [0..e - 1] ! i = f (int i)"
  using assms by (simp add: nth_upto)

text \<open>
  C10. With an empty motif the period is 0 and the bound of the loop divides by it: the
  call fails. With any other motif the call returns, for every read, every pair of
  flanks and every scoring scheme.
\<close>

theorem realign_nonempty_motif:
  "if motif = [] then expansion_aware_realign P seq pre_flank post_flank motif = Inl DivisionByZero
   else (\<exists>r. expansion_aware_realign P seq pre_flank post_flank motif = Inr r)"
proof (cases "motif = []")
  case True
  then show ?thesis by (simp add: expansion_aware_realign_def realign_logged_def)
next
  case False
  from realign_logged_facts [OF False, of seq P pre_flank post_flank] False
  show ?thesis by (auto simp add: expansion_aware_realign_def)
qed

theorem realign_nonempty_motif_witness:
  "expansion_aware_realign example_params ''G'' ''A'' ''T'' [] = Inl DivisionByZero
   \<and> (\<exists>r. expansion_aware_realign example_params ''G'' ''A'' ''T'' ''C'' = Inr r)"
  using realign_nonempty_motif [of "[]" example_params "''G''" "''A''" "''T''"]
    realign_nonempty_motif [of "''C''" example_params "''G''" "''A''" "''T''"]
  by simp

text \<open>
  C2 (amended). For a non-empty motif the trials are those of the copy counts
  \<open>0, 1, \<dots>, e - 1\<close> in this order, where \<open>e - 1\<close> is at most
  \<open>\<lfloor>len(read)/period\<rfloor> + 1\<close>: the loop runs up to that copy count inclusive unless
  a trial reaches the perfect score, and then it stops after the first such trial. The
  copy count \<open>\<lfloor>len(read)/period\<rfloor> + 2\<close> is never tried.
\<close>

theorem realign_trial_range:
  assumes "motif \<noteq> []"
  shows "\<exists>e. 1 \<le> e \<and> e \<le> int (length seq) div int (length motif) + 2
           \<and> realign_trials P seq pre_flank post_flank motif
               = map (trial_of P seq pre_flank post_flank motif) [0..e - 1]
           \<and> (e = int (length seq) div int (length motif) + 2
              \<or> trial_score (trial_of P seq pre_flank post_flank motif (e - 1))
                   = int (length seq) * MATCH_SCORE P)
           \<and> (\<forall>k. 0 \<le> k \<and> k < e - 1 \<longrightarrow>
                  trial_score (trial_of P seq pre_flank post_flank motif k)
                    \<noteq> int (length seq) * MATCH_SCORE P)"
proof -
  from realign_logged_facts [OF assms, of seq P pre_flank post_flank]
  obtain e ms mn mp where e: "1 \<le> e" "e \<le> int (length seq) div int (length motif) + 2"
    and run: "realign_logged P seq pre_flank post_flank motif
         = Inr ((4 * int (length motif) - 1, mn, mp, ms),
                map (trial_of P seq pre_flank post_flank motif) [0..e - 1])"
    and np: "\<forall>i. 0 \<le> i \<and> i < e - 1 \<longrightarrow>
            trial_score (trial_of P seq pre_flank post_flank motif i)
              \<noteq> int (length seq) * MATCH_SCORE P"
    and fin: "e = int (length seq) div int (length motif) + 2
        \<or> trial_score (trial_of P seq pre_flank post_flank motif (e - 1))
             = int (length seq) * MATCH_SCORE P"
    by blast
  have "realign_trials P seq pre_flank post_flank motif
               = map (trial_of P seq pre_flank post_flank motif) [0..e - 1]"
    by (simp add: realign_trials_def run)
  with e np fin show ?thesis by blast
qed

theorem realign_trial_range_witness:
  "''C'' \<noteq> []
   \<and> realign_trials example_params ''G'' ''A'' ''T'' ''C'' = [(0, -2, 0), (1, -2, 0), (2, -2, 0)]
   \<and> (\<exists>e. 1 \<le> e \<and> e \<le> 3
         \<and> realign_trials example_params ''G'' ''A'' ''T'' ''C''
             = map (trial_of example_params ''G'' ''A'' ''T'' ''C'') [0..e - 1])"
proof -
  have ne: "''C'' \<noteq> []" by simp
  have t: "realign_trials example_params ''G'' ''A'' ''T'' ''C'' = [(0, -2, 0), (1, -2, 0), (2, -2, 0)]"
    by code_simp
  from realign_trial_range [OF ne, of "''G''" example_params "''A''" "''T''"]
  obtain e where "1 \<le> e" "e \<le> 3" "realign_trials example_params ''G'' ''A'' ''T'' ''C''
             = map (trial_of example_params ''G'' ''A'' ''T'' ''C'') [0..e - 1]"
    by auto
  with ne t show ?thesis by blast
qed

text \<open>
  C2, as stated, fails: for the read \<open>G\<close> and the motif \<open>C\<close> the copy count
  \<open>\<lfloor>1/1\<rfloor> + 2 = 3\<close> is not tried although no trial reaches the perfect score.
\<close>

theorem realign_trial_range_counterexample:
  "''C'' \<noteq> []
   \<and> \<not> (\<exists>t \<in> set (realign_trials example_params ''G'' ''A'' ''T'' ''C'').
           trial_nCopy t = int (length ''G'') div int (length ''C'') + 2)
   \<and> \<not> (\<exists>t \<in> set (realign_trials example_params ''G'' ''A'' ''T'' ''C'').
           trial_score t = int (length ''G'') * MATCH_SCORE example_params)"
proof -
  have "realign_trials example_params ''G'' ''A'' ''T'' ''C'' = [(0, -2, 0), (1, -2, 0), (2, -2, 0)]"
    by code_simp
  then show ?thesis by (simp add: example_params_def trial_nCopy_def trial_score_def)
qed

text \<open>
  C5 (amended). For a non-empty motif the realigner returns a score that no trial
  exceeds. If some trial has a positive score, the returned triple is the triple of a
  trial, and of all trials with that score it has the smallest copy count; if no trial
  has a positive score, the returned triple is \<open>(0, 0, 0)\<close>. No trial before the last
  one reaches the perfect score: the loop stops at the first that does.
\<close>

theorem realign_returns_best:
  assumes "motif \<noteq> []"
  shows "\<exists>MARGIN nCopy pos score.
           expansion_aware_realign P seq pre_flank post_flank motif = Inr (MARGIN, nCopy, pos, score)
           \<and> (\<forall>t \<in> set (realign_trials P seq pre_flank post_flank motif). trial_score t \<le> score)
           \<and> (if \<exists>t \<in> set (realign_trials P seq pre_flank post_flank motif). 0 < trial_score t
               then (nCopy, pos, score) \<in> set (realign_trials P seq pre_flank post_flank motif)
                    \<and> (\<forall>t \<in> set (realign_trials P seq pre_flank post_flank motif).
                          trial_score t = score \<longrightarrow> nCopy \<le> trial_nCopy t)
               else (nCopy, pos, score) = (0, 0, 0))
           \<and> (\<forall>i. Suc i < length (realign_trials P seq pre_flank post_flank motif) \<longrightarrow>
                  trial_score (realign_trials P seq pre_flank post_flank motif ! i)
                    \<noteq> int (length seq) * MATCH_SCORE P)"
proof -
  let ?T = "trial_of P seq pre_flank post_flank motif"
  from realign_logged_facts [OF assms, of seq P pre_flank post_flank]
  obtain e ms mn mp where e: "1 \<le> e"
    and run: "realign_logged P seq pre_flank post_flank motif
         = Inr ((4 * int (length motif) - 1, mn, mp, ms), map ?T [0..e - 1])"
    and f: "foldl keep_best (0, 0, 0) (map ?T [0..e - 1]) = (ms, mn, mp)"
    and np: "\<forall>i. 0 \<le> i \<and> i < e - 1 \<longrightarrow> trial_score (?T i) \<noteq> int (length seq) * MATCH_SCORE P"
    by blast
  define ts where "ts = map ?T [0..e - 1]"
  have ts: "realign_trials P seq pre_flank post_flank motif = ts"
    by (simp add: realign_trials_def run ts_def)
  have res: "expansion_aware_realign P seq pre_flank post_flank motif
               = Inr (4 * int (length motif) - 1, mn, mp, ms)"
    by (simp add: expansion_aware_realign_def run)
  have len: "length ts = nat e" by (simp add: ts_def)
  have nth: "ts ! i = ?T (int i)" if "i < nat e" for i
    unfolding ts_def using that by (rule upto_trials_nth)
  from keep_best_foldl [OF f [folded ts_def]]
  have ms0: "0 \<le> ms" and le: "\<forall>t \<in> set ts. trial_score t \<le> ms"
    and best: "if 0 < ms
       then (\<exists>i < length ts. ts ! i = (mn, mp, ms) \<and> (\<forall>i' < i. trial_score (ts ! i') < ms))
       else mn = 0 \<and> mp = 0"
    by blast+
  have pos_iff: "(\<exists>t \<in> set ts. 0 < trial_score t) = (0 < ms)"
  proof
    assume "\<exists>t \<in> set ts. 0 < trial_score t"
    with le show "0 < ms" by force
  next
    assume "0 < ms"
    with best obtain i where "i < length ts" "ts ! i = (mn, mp, ms)" by auto
    then have "(mn, mp, ms) \<in> set ts" by (metis nth_mem)
    with \<open>0 < ms\<close> show "\<exists>t \<in> set ts. 0 < trial_score t"
      by (intro bexI [of _ "(mn, mp, ms)"]) (simp_all add: trial_score_def)
  qed
  have sel: "if \<exists>t \<in> set ts. 0 < trial_score t
               then (mn, mp, ms) \<in> set ts
                    \<and> (\<forall>t \<in> set ts. trial_score t = ms \<longrightarrow> mn \<le> trial_nCopy t)
               else (mn, mp, ms) = (0, 0, 0)"
  proof (cases "0 < ms")
    case True
    with best obtain i where i: "i < length ts" "ts ! i = (mn, mp, ms)"
      and first: "\<forall>i' < i. trial_score (ts ! i') < ms"
      by auto
    from i have mem: "(mn, mp, ms) \<in> set ts" by (metis nth_mem)
    from i len have "?T (int i) = (mn, mp, ms)" using nth by simp
    then have "trial_nCopy (?T (int i)) = mn" by (simp add: trial_nCopy_def)
    then have mn: "mn = int i" by simp
    have "mn \<le> trial_nCopy t" if t: "t \<in> set ts" and s: "trial_score t = ms" for t
    proof -
      from t obtain i'' where i'': "i'' < length ts" "ts ! i'' = t"
        by (auto simp only: in_set_conv_nth)
      with first s have "\<not> i'' < i" by auto
      moreover from i'' len nth have "t = ?T (int i'')" by simp
      then have "trial_nCopy t = int i''" by simp
      ultimately show ?thesis using mn by simp
    qed
    with mem True pos_iff show ?thesis by simp
  next
    case False
    with best ms0 pos_iff show ?thesis by simp
  qed
  have early: "\<forall>i. Suc i < length ts \<longrightarrow> trial_score (ts ! i) \<noteq> int (length seq) * MATCH_SCORE P"
  proof (intro allI impI)
    fix i assume i: "Suc i < length ts"
    then have "i < nat e" "0 \<le> int i \<and> int i < e - 1" unfolding len by linarith+
    with np nth show "trial_score (ts ! i) \<noteq> int (length seq) * MATCH_SCORE P" by simp
  qed
  from res le sel early show ?thesis unfolding ts by blast
qed

theorem realign_returns_best_witness:
  "''CA'' \<noteq> []
   \<and> expansion_aware_realign example_params ''CACACA'' ''AAAA'' ''TTTT'' ''CA'' = Inr (7, 3, 4, 18)
   \<and> realign_trials example_params ''CACACA'' ''AAAA'' ''TTTT'' ''CA''
       = [(0, -3, 5), (1, 0, 11), (2, 2, 15), (3, 4, 18)]
   \<and> (3, 4, 18) \<in> set (realign_trials example_params ''CACACA'' ''AAAA'' ''TTTT'' ''CA'')"
proof -
  have ne: "''CA'' \<noteq> []" by simp
  have r: "expansion_aware_realign example_params ''CACACA'' ''AAAA'' ''TTTT'' ''CA'' = Inr (7, 3, 4, 18)"
    by code_simp
  have t: "realign_trials example_params ''CACACA'' ''AAAA'' ''TTTT'' ''CA''
       = [(0, -3, 5), (1, 0, 11), (2, 2, 15), (3, 4, 18)]"
    by code_simp
  have p: "\<exists>t \<in> set (realign_trials example_params ''CACACA'' ''AAAA'' ''TTTT'' ''CA''). 0 < trial_score t"
    unfolding t by (simp add: trial_score_def)
  from realign_returns_best [OF ne, of example_params "''CACACA''" "''AAAA''" "''TTTT''"] p r
  have "(3, 4, 18) \<in> set (realign_trials example_params ''CACACA'' ''AAAA'' ''TTTT'' ''CA'')"
    by auto
  with ne r t show ?thesis by simp
qed

text \<open>
  C5, as stated, fails: when every trial has the score 0 the returned position is the
  initial 0, which is the position of no trial.
\<close>

theorem realign_returns_best_counterexample:
  "''C'' \<noteq> []
   \<and> expansion_aware_realign example_params ''G'' ''A'' ''T'' ''C'' = Inr (3, 0, 0, 0)
   \<and> realign_trials example_params ''G'' ''A'' ''T'' ''C'' = [(0, -2, 0), (1, -2, 0), (2, -2, 0)]
   \<and> (0, 0, 0) \<notin> set (realign_trials example_params ''G'' ''A'' ''T'' ''C'')"
proof -
  have r: "expansion_aware_realign example_params ''G'' ''A'' ''T'' ''C'' = Inr (3, 0, 0, 0)"
    by code_simp
  have t: "realign_trials example_params ''G'' ''A'' ''T'' ''C'' = [(0, -2, 0), (1, -2, 0), (2, -2, 0)]"
    by code_simp
  show ?thesis unfolding t r by simp
qed

text \<open>
  C4. Under a standard scoring scheme and for a non-empty motif, the score that the
  realigner returns is at most \<open>len(read) * MATCH_SCORE\<close>, and it is equal to it if and
  only if the read occurs, base for base and without a gap, in the hypothesis of the
  returned copy count.
\<close>

theorem realign_score_perfect:
  assumes std: "standard_scoring P" and ne: "motif \<noteq> []"
  shows "\<exists>MARGIN nCopy pos score.
           expansion_aware_realign P seq pre_flank post_flank motif = Inr (MARGIN, nCopy, pos, score)
           \<and> score \<le> int (length seq) * MATCH_SCORE P
           \<and> ((score = int (length seq) * MATCH_SCORE P)
                = (\<exists>ps ss. var_realign_string pre_flank post_flank motif nCopy = ps @ seq @ ss))"
proof -
  let ?T = "trial_of P seq pre_flank post_flank motif"
  let ?perfect = "int (length seq) * MATCH_SCORE P"
  from realign_logged_facts [OF ne, of seq P pre_flank post_flank]
  obtain e ms mn mp where e: "1 \<le> e"
    and run: "realign_logged P seq pre_flank post_flank motif
         = Inr ((4 * int (length motif) - 1, mn, mp, ms), map ?T [0..e - 1])"
    and f: "foldl keep_best (0, 0, 0) (map ?T [0..e - 1]) = (ms, mn, mp)"
    by blast
  define ts where "ts = map ?T [0..e - 1]"
  have res: "expansion_aware_realign P seq pre_flank post_flank motif
               = Inr (4 * int (length motif) - 1, mn, mp, ms)"
    by (simp add: expansion_aware_realign_def run)
  have len: "length ts = nat e" by (simp add: ts_def)
  have nth: "ts ! i = ?T (int i)" if "i < nat e" for i
    unfolding ts_def using that by (rule upto_trials_nth)
  from keep_best_foldl [OF f [folded ts_def]]
  have ms0: "0 \<le> ms" and le: "\<forall>t \<in> set ts. trial_score t \<le> ms"
    and best: "if 0 < ms
       then (\<exists>i < length ts. ts ! i = (mn, mp, ms) \<and> (\<forall>i' < i. trial_score (ts ! i') < ms))
       else mn = 0 \<and> mp = 0"
    by blast+
  have "\<exists>pos. smith_waterman P (var_realign_string pre_flank post_flank motif mn) seq = Inr (pos, ms)"
  proof (cases "0 < ms")
    case True
    with best obtain i where i: "i < length ts" "ts ! i = (mn, mp, ms)" by auto
    with len nth have t: "?T (int i) = (mn, mp, ms)" by simp
    then have "trial_nCopy (?T (int i)) = mn" by (simp add: trial_nCopy_def)
    then have "int i = mn" by simp
    with sw_trial_of [of P pre_flank post_flank motif "int i" seq] t show ?thesis by simp
  next
    case False
    with best ms0 have z: "ms = 0" "mn = 0" by simp_all
    obtain p0 s0 where sw: "smith_waterman P (var_realign_string pre_flank post_flank motif 0) seq = Inr (p0, s0)"
      using smith_waterman_total by blast
    from e have "0 < nat e" by simp
    with nth [of 0] len have "?T 0 \<in> set ts" by (metis nth_mem of_nat_0)
    with le have "trial_score (?T 0) \<le> ms" by blast
    with trial_of_sw [OF sw] have "s0 \<le> ms" by (simp add: trial_score_def)
    with smith_waterman_nonneg [OF sw] z have "s0 = ms" by simp
    with sw z show ?thesis by auto
  qed
  then obtain pos where sw: "smith_waterman P (var_realign_string pre_flank post_flank motif mn) seq = Inr (pos, ms)"
    by blast
  from res smith_waterman_upper(1) [OF std sw] smith_waterman_perfect_iff [OF std sw]
  show ?thesis by simp
qed

theorem realign_score_perfect_witness:
  "standard_scoring example_params \<and> ''CA'' \<noteq> []
   \<and> expansion_aware_realign example_params ''CACACA'' ''AAAA'' ''TTTT'' ''CA'' = Inr (7, 3, 4, 18)
   \<and> 18 = int (length ''CACACA'') * MATCH_SCORE example_params
   \<and> (\<exists>ps ss. var_realign_string ''AAAA'' ''TTTT'' ''CA'' 3 = ps @ ''CACACA'' @ ss)"
proof -
  have std: "standard_scoring example_params"
    by (simp add: standard_scoring_def example_params_def)
  have ne: "''CA'' \<noteq> []" by simp
  have r: "expansion_aware_realign example_params ''CACACA'' ''AAAA'' ''TTTT'' ''CA'' = Inr (7, 3, 4, 18)"
    by code_simp
  have p: "18 = int (length ''CACACA'') * MATCH_SCORE example_params"
    by (simp add: example_params_def)
  from realign_score_perfect [OF std ne, of "''CACACA''" "''AAAA''" "''TTTT''"] r p
  have "\<exists>ps ss. var_realign_string ''AAAA'' ''TTTT'' ''CA'' 3 = ps @ ''CACACA'' @ ss"
    by auto
  with std ne r p show ?thesis by blast
qed

lemma score_threshold_le:
  assumes "MATCH_PERC_THRESHOLD P \<le> 1" and "0 \<le> MATCH_SCORE P"
  shows "score_threshold P seq \<le> int (length seq) * MATCH_SCORE P"
proof -
  let ?x = "MATCH_PERC_THRESHOLD P * of_nat (length seq) * of_int (MATCH_SCORE P)"
  have nn: "0 \<le> real (length seq) * real_of_int (MATCH_SCORE P)" using assms(2) by simp
  have "?x = MATCH_PERC_THRESHOLD P * (of_nat (length seq) * of_int (MATCH_SCORE P))" by simp
  also have "\<dots> \<le> 1 * (of_nat (length seq) * of_int (MATCH_SCORE P))"
    using assms(1) nn by (rule mult_right_mono)
  finally have x: "?x \<le> of_int (int (length seq) * MATCH_SCORE P)" by simp
  show ?thesis
  proof (cases "0 \<le> ?x")
    case True
    from floor_mono [OF x] have "\<lfloor>?x\<rfloor> \<le> int (length seq) * MATCH_SCORE P"
      by (simp only: floor_of_int)
    with True show ?thesis by (simp add: score_threshold_def truncate_to_int_def)
  next
    case False
    from ceiling_mono [OF x] have "\<lceil>?x\<rceil> \<le> int (length seq) * MATCH_SCORE P"
      by (simp only: ceiling_of_int)
    with False show ?thesis by (simp add: score_threshold_def truncate_to_int_def)
  qed
qed

section \<open>The read classifier\<close>

text \<open>
  C3 (amended). When the geometry passes none of the tests of the four structural classes
  (neither end of the read is inside the margin interval, and the read does not span the
  repeat), the classifier signals the failure only if the score reaches the threshold and
  the copy number is not zero; with a score below the threshold or a copy number of zero
  the first branch applies and the result is \<open>SR_UNKNOWN\<close>.
\<close>

theorem classify_no_structural_class:
  assumes "\<not> start_in_str MARGIN motif start_pos nCopy prefix_length"
    and "\<not> end_in_str MARGIN seq motif start_pos nCopy prefix_length"
    and "\<not> spans_str seq motif start_pos nCopy prefix_length"
  shows "classify_realigned_read P MARGIN seq motif start_pos nCopy score prefix_length =
           (if score < score_threshold P seq \<or> nCopy = 0 then Inr SR_UNKNOWN
            else Inl ReturnedFalse)"
  using assms by (simp add: classify_realigned_read_def)

theorem classify_no_structural_class_witness:
  "\<not> start_in_str 7 ''CA'' 100 3 4
   \<and> \<not> end_in_str 7 ''AAAAA'' ''CA'' 100 3 4
   \<and> \<not> spans_str ''AAAAA'' ''CA'' 100 3 4
   \<and> classify_realigned_read example_params 7 ''AAAAA'' ''CA'' 100 3 42 4 = Inl ReturnedFalse"
proof -
  have a: "\<not> start_in_str 7 ''CA'' 100 3 4"
    by (simp add: start_in_str_def)
  have b: "\<not> end_in_str 7 ''AAAAA'' ''CA'' 100 3 4"
    by (simp add: end_in_str_def)
  have c: "\<not> spans_str ''AAAAA'' ''CA'' 100 3 4"
    by (simp add: spans_str_def)
  have d: "\<not> (42 < score_threshold example_params ''AAAAA'' \<or> (3::int) = 0)"
    by (simp add: score_threshold_def example_params_def truncate_to_int_def)
  from classify_no_structural_class [OF a b c, of example_params 42] d a b c
  show ?thesis by simp
qed

text \<open>
  C3, as stated, fails: with a copy number of zero the geometry below passes none of the
  tests of the four structural classes, and the classifier returns \<open>SR_UNKNOWN\<close>, not the
  failure.
\<close>

theorem classify_no_structural_class_counterexample:
  "\<not> start_in_str 7 ''CA'' 100 0 4
   \<and> \<not> end_in_str 7 ''AAAAA'' ''CA'' 100 0 4
   \<and> \<not> spans_str ''AAAAA'' ''CA'' 100 0 4
   \<and> classify_realigned_read example_params 7 ''AAAAA'' ''CA'' 100 0 42 4 = Inr SR_UNKNOWN"
  by (simp add: classify_realigned_read_def start_in_str_def end_in_str_def spans_str_def)

text \<open>
  C8. For a fixed read and fixed results of the realigner, a class other than \<open>SR_UNKNOWN\<close>
  returned at one value of \<^verbatim>\<open>MATCH_PERC_THRESHOLD\<close> is, at any larger value, either
  returned again or replaced by \<open>SR_UNKNOWN\<close>.
\<close>

theorem classify_threshold_monotone:
  assumes "MATCH_PERC_THRESHOLD P \<le> t'"
    and "classify_realigned_read P MARGIN seq motif start_pos nCopy score prefix_length = Inr c"
    and "c \<noteq> SR_UNKNOWN"
  shows "classify_realigned_read (P\<lparr>MATCH_PERC_THRESHOLD := t'\<rparr>) MARGIN seq motif start_pos nCopy
           score prefix_length \<in> {Inr c, Inr SR_UNKNOWN}"
  using assms(2,3) by (auto simp add: classify_realigned_read_def Let_def split: if_splits)

theorem classify_threshold_monotone_witness:
  "MATCH_PERC_THRESHOLD example_params \<le> 1
   \<and> classify_realigned_read example_params 7 ''CACACA'' ''CA'' 4 3 17 4 = Inr SR_IRR
   \<and> SR_IRR \<noteq> SR_UNKNOWN
   \<and> classify_realigned_read (example_params\<lparr>MATCH_PERC_THRESHOLD := 1\<rparr>) 7 ''CACACA'' ''CA'' 4 3 17 4
       = Inr SR_UNKNOWN"
proof -
  have a: "MATCH_PERC_THRESHOLD example_params \<le> 1"
    by (simp add: example_params_def)
  have b: "classify_realigned_read example_params 7 ''CACACA'' ''CA'' 4 3 17 4 = Inr SR_IRR"
    by (simp add: classify_realigned_read_def example_params_def score_threshold_def
        truncate_to_int_def start_in_str_def end_in_str_def)
  have c: "SR_IRR \<noteq> SR_UNKNOWN" by simp
  have d: "classify_realigned_read (example_params\<lparr>MATCH_PERC_THRESHOLD := 1\<rparr>) 7 ''CACACA'' ''CA''
             4 3 17 4 \<noteq> Inr SR_IRR"
    by (simp add: classify_realigned_read_def example_params_def score_threshold_def
        truncate_to_int_def start_in_str_def end_in_str_def)
  from classify_threshold_monotone [OF a b c] d a b c show ?thesis by simp
qed

section \<open>The realigner followed by the classifier\<close>

lemma scenario1_hypotheses:
  "var_realign_string ''AAAA'' ''TTTT'' ''CA'' 0 = ''AAAATTTT''"
  "var_realign_string ''AAAA'' ''TTTT'' ''CA'' 1 = ''AAAACATTTT''"
  "var_realign_string ''AAAA'' ''TTTT'' ''CA'' 2 = ''AAAACACATTTT''"
  "var_realign_string ''AAAA'' ''TTTT'' ''CA'' 3 = ''AAAACACACATTTT''"
  by code_simp+

lemma upto_0_3: "[0..(3::int)] = [0, 1, 2, 3]"
  by code_simp

lemma scenario1_realign:
  assumes std: "standard_scoring P"
  shows "expansion_aware_realign P ''AAAACACACATTTT'' ''AAAA'' ''TTTT'' ''CA''
           = Inr (7, 3, 0, 14 * MATCH_SCORE P)"
proof -
  let ?read = "''AAAACACACATTTT''"
  let ?T = "trial_of P ?read ''AAAA'' ''TTTT'' ''CA''"
  let ?M = "MATCH_SCORE P"
  from std have M: "0 < ?M" by (simp add: standard_scoring_def)
  have short: "\<exists>pos sc. ?T k = (k, pos, sc) \<and> sc < 14 * ?M"
    if "length (var_realign_string ''AAAA'' ''TTTT'' ''CA'' k) \<le> 12" for k
  proof -
    obtain pos sc where sw: "smith_waterman P (var_realign_string ''AAAA'' ''TTTT'' ''CA'' k) ?read = Inr (pos, sc)"
      using smith_waterman_total by blast
    have "sc \<le> int (length (var_realign_string ''AAAA'' ''TTTT'' ''CA'' k)) * ?M"
      by (rule smith_waterman_upper(2) [OF std sw])
    also have "\<dots> \<le> 12 * ?M" using that M by (intro mult_right_mono) simp_all
    finally have "sc < 14 * ?M" using M by simp
    with trial_of_sw [OF sw] show ?thesis by simp
  qed
  from short [of 0] obtain p0 s0 where t0: "?T 0 = (0, p0, s0)" and s0: "s0 < 14 * ?M"
    by (auto simp add: scenario1_hypotheses)
  from short [of 1] obtain p1 s1 where t1: "?T 1 = (1, p1, s1)" and s1: "s1 < 14 * ?M"
    by (auto simp add: scenario1_hypotheses)
  from short [of 2] obtain p2 s2 where t2: "?T 2 = (2, p2, s2)" and s2: "s2 < 14 * ?M"
    by (auto simp add: scenario1_hypotheses)
  have "smith_waterman P ?read ?read = Inr (0, int (length ?read) * ?M)"
    by (rule smith_waterman_self [OF std]) simp
  then have "smith_waterman P (var_realign_string ''AAAA'' ''TTTT'' ''CA'' 3) ?read = Inr (0, 14 * ?M)"
    by (simp add: scenario1_hypotheses)
  from trial_of_sw [OF this] have t3: "?T 3 = (3, 0, 14 * ?M)" .
  have ne: "''CA'' \<noteq> []" by simp
  from realign_logged_facts [OF ne, of ?read P "''AAAA''" "''TTTT''"]
  obtain e ms mn mp where e: "1 \<le> e"
    and run: "realign_logged P ?read ''AAAA'' ''TTTT'' ''CA''
         = Inr ((4 * int (length ''CA'') - 1, mn, mp, ms), map ?T [0..e - 1])"
    and f: "foldl keep_best (0, 0, 0) (map ?T [0..e - 1]) = (ms, mn, mp)"
    and np: "\<forall>i. 0 \<le> i \<and> i < e - 1 \<longrightarrow> trial_score (?T i) \<noteq> int (length ?read) * ?M"
    and fin: "e = int (length ?read) div int (length ''CA'') + 2
        \<or> trial_score (?T (e - 1)) = int (length ?read) * ?M"
    by blast
  have p3: "trial_score (?T 3) = int (length ?read) * ?M" by (simp add: t3 trial_score_def)
  with np have "\<not> 3 < e - 1" by auto
  then have e4: "e \<le> 4" by simp
  with fin have last: "trial_score (?T (e - 1)) = int (length ?read) * ?M" by auto
  from e e4 have "e = 1 \<or> e = 2 \<or> e = 3 \<or> e = 4" by auto
  with last t0 t1 t2 s0 s1 s2 have "e = 4" by (auto simp add: trial_score_def)
  with f have "foldl keep_best (0, 0, 0) [?T 0, ?T 1, ?T 2, ?T 3] = (ms, mn, mp)"
    by (simp add: upto_0_3)
  with s0 s1 s2 M have "ms = 14 * ?M \<and> mn = 3 \<and> mp = 0"
    by (simp add: t0 t1 t2 t3 keep_best_simp split: if_splits)
  with run show ?thesis by (simp add: expansion_aware_realign_def)
qed

lemma scenario1_classify:
  assumes std: "standard_scoring P" and thr: "MATCH_PERC_THRESHOLD P \<le> 1"
  shows "classify_realigned_read P 7 ''AAAACACACATTTT'' ''CA'' 0 3 (14 * MATCH_SCORE P) 4 = Inr SR_IRR"
proof -
  from std have "0 \<le> MATCH_SCORE P" by (simp add: standard_scoring_def)
  from score_threshold_le [OF thr this, of "''AAAACACACATTTT''"]
  have "\<not> 14 * MATCH_SCORE P < score_threshold P ''AAAACACACATTTT''" by simp
  then show ?thesis
    by (simp add: classify_realigned_read_def start_in_str_def end_in_str_def)
qed

text \<open>
  C1 (amended). For the motif \<open>CA\<close>, the flanks \<open>AAAA\<close> and \<open>TTTT\<close>, the prefix length 4
  and the read \<open>AAAACACACATTTT\<close>, under a standard scoring scheme and a threshold of at
  most 1: the realigner sets the margin to 7 and returns the copy number 3, the position
  0 and the score \<open>len(read) * MATCH_SCORE\<close>, and the classifier then returns \<open>SR_IRR\<close>,
  since both ends of the read lie inside the repeat widened by the margin.
\<close>

theorem scenario1_realign_classify:
  assumes "standard_scoring P" and "MATCH_PERC_THRESHOLD P \<le> 1"
  shows "expansion_aware_realign P ''AAAACACACATTTT'' ''AAAA'' ''TTTT'' ''CA''
           = Inr (7, 3, 0, int (length ''AAAACACACATTTT'') * MATCH_SCORE P)
         \<and> classify_realigned_read P 7 ''AAAACACACATTTT'' ''CA'' 0 3
             (int (length ''AAAACACACATTTT'') * MATCH_SCORE P) 4 = Inr SR_IRR"
  using scenario1_realign [OF assms(1)] scenario1_classify [OF assms] by simp

theorem scenario1_realign_classify_witness:
  "standard_scoring example_params \<and> MATCH_PERC_THRESHOLD example_params \<le> 1
   \<and> expansion_aware_realign example_params ''AAAACACACATTTT'' ''AAAA'' ''TTTT'' ''CA''
       = Inr (7, 3, 0, 42)
   \<and> classify_realigned_read example_params 7 ''AAAACACACATTTT'' ''CA'' 0 3 42 4 = Inr SR_IRR"
proof -
  have std: "standard_scoring example_params"
    by (simp add: standard_scoring_def example_params_def)
  have thr: "MATCH_PERC_THRESHOLD example_params \<le> 1"
    by (simp add: example_params_def)
  have m: "int (length ''AAAACACACATTTT'') * MATCH_SCORE example_params = 42"
    by (simp add: example_params_def)
  from scenario1_realign_classify [OF std thr] std thr show ?thesis
    by (simp only: m)
qed

text \<open>
  C1, as stated, fails: with the scores 3, -1, -3 and the threshold 0.9 the realigner
  returns the copy number 3 and the score 42, and the class is \<open>SR_IRR\<close>, not
  \<open>SR_ENCLOSING\<close>.
\<close>

theorem scenario1_realign_classify_counterexample:
  "expansion_aware_realign example_params ''AAAACACACATTTT'' ''AAAA'' ''TTTT'' ''CA''
     = Inr (7, 3, 0, 42)
   \<and> 42 = int (length ''AAAACACACATTTT'') * MATCH_SCORE example_params
   \<and> classify_realigned_read example_params 7 ''AAAACACACATTTT'' ''CA'' 0 3 42 4 = Inr SR_IRR
   \<and> SR_IRR \<noteq> SR_ENCLOSING"
proof -
  have r: "expansion_aware_realign example_params ''AAAACACACATTTT'' ''AAAA'' ''TTTT'' ''CA''
       = Inr (7, 3, 0, 42)"
    by code_simp
  have c: "classify_realigned_read example_params 7 ''AAAACACACATTTT'' ''CA'' 0 3 42 4 = Inr SR_IRR"
    by (simp add: classify_realigned_read_def example_params_def score_threshold_def
        truncate_to_int_def start_in_str_def end_in_str_def)
  from r c show ?thesis by (simp add: example_params_def)
qed

end
